theory Spec2Isabelle
  imports Main "HOL-Library.Word"
begin

unbundle bit_operations_syntax

section \<open>Machine types and faults\<close>

type_synonym u8 = "8 word"
type_synonym u32 = "32 word"
type_synonym u64 = "64 word"

text \<open>
  Two ways a call of the header \<^verbatim>\<open>src/core/r3000a.h\<close> can fail to return normally:
  the explicit \<^verbatim>\<open>abort()\<close> of \<^verbatim>\<open>delayedLoadRef\<close>, and an operation that C++ leaves
  undefined (an index outside a fixed-size array, a shift by 32 or more, a floating-point
  value converted to an integer type that cannot hold it).
\<close>

datatype fault = Abort | OutOfBounds

text \<open>
  A value of the C++ type \<^verbatim>\<open>float\<close> (IEEE-754 binary32): \<open>Finite m e\<close> is the number
  \<open>m * 2 ^ e\<close>, with a signed significand; the two zeros are not told apart, which no
  operation below can observe. \<^verbatim>\<open>1.0f\<close> is \<open>Finite 1 0\<close>.
\<close>

datatype float = Finite int int | Infinity bool | NaN

section \<open>Architectural state\<close>

text \<open>
  The anonymous struct of \<^verbatim>\<open>m_delayedLoadInfo[2]\<close>, with the default member
  initialisers as \<open>delayedLoadInfo0\<close>.
\<close>

record delayedLoadInfo =
  index :: u32
  "value" :: u32
  mask' :: u32
  pcValue :: u32
  active :: bool
  pcActive :: bool
  fromLink :: bool

definition delayedLoadInfo0 :: delayedLoadInfo where
  "delayedLoadInfo0 =
     \<lparr>index = 0, value = 0, mask' = 0, pcValue = 0,
      active = False, pcActive = False, fromLink = False\<rparr>"

text \<open>
  \<^verbatim>\<open>struct psxRegisters\<close>. Arrays are functions from the index; every access checks the
  bound the C++ array has (\<^verbatim>\<open>GPR.r[34]\<close>, \<^verbatim>\<open>intTargets[32]\<close>,
  \<^verbatim>\<open>iCacheAddr[0x1000]\<close>, \<^verbatim>\<open>iCacheCode[0x1000]\<close>). The coprocessor blocks,
  \<^verbatim>\<open>code\<close>, \<^verbatim>\<open>previousCycles\<close> and \<^verbatim>\<open>spuInterrupt\<close> are read or written by none of the
  functions below and are left out.
\<close>

record psxRegisters =
  GPR :: "nat \<Rightarrow> u32"
  pc :: u32
  cycle :: u64
  interrupt :: u32
  intTargets :: "nat \<Rightarrow> u64"
  lowestTarget :: u64
  iCacheAddr :: "nat \<Rightarrow> u8"
  iCacheCode :: "nat \<Rightarrow> u8"

text \<open>The data members of \<^verbatim>\<open>class R3000Acpu\<close> that the modelled functions use.\<close>

record R3000Acpu =
  m_regs :: psxRegisters
  m_interruptScales :: "nat \<Rightarrow> float"
  m_shellStarted :: bool
  m_delayedLoadInfo :: "nat \<Rightarrow> delayedLoadInfo"
  m_currentDelayedLoad :: nat

section \<open>Delayed loads\<close>

text \<open>
  \<^verbatim>\<open>delayedLoadRef(reg, mask)\<close> returns a reference to the \<^verbatim>\<open>value\<close> field of the current
  slot; the model returns the updated state, the reference being that field of slot
  \<open>m_currentDelayedLoad\<close>. \<^verbatim>\<open>m_delayedLoadInfo\<close> has two elements.
\<close>

definition delayedLoadRef :: "R3000Acpu \<Rightarrow> u32 \<Rightarrow> u32 \<Rightarrow> fault + R3000Acpu" where
  "delayedLoadRef s reg msk =
     (if 32 \<le> reg then Inl Abort
      else if 2 \<le> m_currentDelayedLoad s then Inl OutOfBounds
      else
        let c = m_currentDelayedLoad s;
            delayedLoad = m_delayedLoadInfo s c
        in Inr (s\<lparr>m_delayedLoadInfo := (m_delayedLoadInfo s)
                  (c := delayedLoad\<lparr>active := True, index := reg, mask' := msk\<rparr>)\<rparr>))"

definition delayedLoad :: "R3000Acpu \<Rightarrow> u32 \<Rightarrow> u32 \<Rightarrow> u32 \<Rightarrow> fault + R3000Acpu" where
  "delayedLoad s reg v msk =
     (case delayedLoadRef s reg msk of
        Inl e \<Rightarrow> Inl e
      | Inr s' \<Rightarrow>
          let c = m_currentDelayedLoad s'
          in Inr (s'\<lparr>m_delayedLoadInfo := (m_delayedLoadInfo s')
                    (c := (m_delayedLoadInfo s' c)\<lparr>value := v\<rparr>)\<rparr>))"

definition delayedPCLoad :: "R3000Acpu \<Rightarrow> u32 \<Rightarrow> bool \<Rightarrow> fault + R3000Acpu" where
  "delayedPCLoad s v fl =
     (if 2 \<le> m_currentDelayedLoad s then Inl OutOfBounds
      else
        let c = m_currentDelayedLoad s;
            delayedLoad = m_delayedLoadInfo s c
        in Inr (s\<lparr>m_delayedLoadInfo := (m_delayedLoadInfo s)
                  (c := delayedLoad\<lparr>pcActive := True, pcValue := v, fromLink := fl\<rparr>)\<rparr>))"

definition flushCurrentDelayedLoad :: "R3000Acpu \<Rightarrow> fault + R3000Acpu" where
  "flushCurrentDelayedLoad s =
     (if 2 \<le> m_currentDelayedLoad s then Inl OutOfBounds
      else
        let c = m_currentDelayedLoad s;
            delayedLoad = m_delayedLoadInfo s c
        in if active delayedLoad then
             (if 34 \<le> unat (index delayedLoad) then Inl OutOfBounds
              else
                let i = unat (index delayedLoad);
                    reg = GPR (m_regs s) i;
                    reg = reg AND mask' delayedLoad;
                    reg = reg OR value delayedLoad
                in Inr (s\<lparr>m_regs := (m_regs s)\<lparr>GPR := (GPR (m_regs s))(i := reg)\<rparr>,
                          m_delayedLoadInfo := (m_delayedLoadInfo s)
                            (c := delayedLoad\<lparr>active := False\<rparr>)\<rparr>))
           else Inr s)"

section \<open>Interrupt scheduling\<close>

text \<open>
  \<^verbatim>\<open>eCycle * m_interruptScales[interrupt]\<close> converts the 32-bit count to \<^verbatim>\<open>float\<close>,
  multiplies two floats, and \<^verbatim>\<open>uint64_t(..)\<close> converts the product to a 64-bit integer.
  The three operations are those of IEEE-754 binary32 (a 24-bit significand, exponents of
  the least significant bit from -149 on, values below \<open>2 ^ 128\<close>) in the default rounding
  mode, round to nearest, ties to even, each operation rounded to \<^verbatim>\<open>float\<close>.

  The conversion of the count: \<open>excess_bits n\<close> is the number of low bits of \<open>n\<close> that do
  not fit, and \<open>u32_to_float n\<close> is the value of \<^verbatim>\<open>(float)n\<close>, an integer.
\<close>

fun excess_bits :: "nat \<Rightarrow> nat" where
  "excess_bits n = (if n < 2 ^ 24 then 0 else Suc (excess_bits (n div 2)))"

declare excess_bits.simps [simp del]

definition u32_to_float :: "nat \<Rightarrow> nat" where
  "u32_to_float n =
     (let e = excess_bits n;
          q = n div 2 ^ e;
          r = n mod 2 ^ e
      in if e = 0 then n
         else if r < 2 ^ (e - 1) \<or> (r = 2 ^ (e - 1) \<and> even q) then q * 2 ^ e
         else (q + 1) * 2 ^ e)"

definition float_of_u32 :: "u32 \<Rightarrow> float" where
  "float_of_u32 w = Finite (int (u32_to_float (unat w))) 0"

text \<open>
  The product. \<open>bitlen M\<close> is the number of bits of \<open>M\<close>. \<open>round_shift M d\<close> drops the
  \<open>d\<close> low bits of \<open>M\<close>, to nearest, ties to even. \<open>float_round neg M E\<close> is the float
  nearest to the exact value \<open>M * 2 ^ E\<close>, negated when \<open>neg\<close>: the significand keeps 24
  bits, fewer where the exponent would go below -149, and a rounded value of \<open>2 ^ 128\<close> or
  more is infinite. \<open>float_mul\<close> rounds the exact product of two finite values; a product
  with an infinite factor is infinite, or not a number when the other factor is zero.
\<close>

fun bitlen :: "nat \<Rightarrow> nat" where
  "bitlen n = (if n = 0 then 0 else Suc (bitlen (n div 2)))"

declare bitlen.simps [simp del]

definition round_shift :: "nat \<Rightarrow> nat \<Rightarrow> nat" where
  "round_shift M d =
     (let q = M div 2 ^ d;
          r = M mod 2 ^ d
      in if d = 0 then M
         else if r < 2 ^ (d - 1) \<or> (r = 2 ^ (d - 1) \<and> even q) then q
         else q + 1)"

definition float_round :: "bool \<Rightarrow> nat \<Rightarrow> int \<Rightarrow> float" where
  "float_round neg M E =
     (let e = max (E + int (bitlen M) - 24) (- 149);
          q = (if e \<le> E then M else round_shift M (nat (e - E)));
          e = (if e \<le> E then E else e)
      in if q \<noteq> 0 \<and> 128 < int (bitlen q) + e then Infinity neg
         else Finite (if neg then - int q else int q) e)"

fun float_mul :: "float \<Rightarrow> float \<Rightarrow> float" where
  "float_mul (Finite m1 e1) (Finite m2 e2) =
     float_round (m1 * m2 < 0) (nat \<bar>m1 * m2\<bar>) (e1 + e2)"
| "float_mul (Finite m e) (Infinity neg) =
     (if m = 0 then NaN else Infinity (neg \<noteq> (m < 0)))"
| "float_mul (Infinity neg) (Finite m e) =
     (if m = 0 then NaN else Infinity (neg \<noteq> (m < 0)))"
| "float_mul (Infinity neg1) (Infinity neg2) = Infinity (neg1 \<noteq> neg2)"
| "float_mul NaN y = NaN"
| "float_mul x NaN = NaN"

text \<open>
  The conversion to \<^verbatim>\<open>uint64_t\<close> truncates towards zero (\<open>trunc_val m e\<close> is the integer
  part of \<open>m * 2 ^ e\<close>), and is undefined when the integer part is not a value of the type:
  for a negative value from -1 on, a value from \<open>2 ^ 64\<close> on, an infinity and a NaN.
\<close>

definition trunc_val :: "int \<Rightarrow> int \<Rightarrow> int" where
  "trunc_val m e =
     (if 0 \<le> e then m * 2 ^ nat e else sgn m * (\<bar>m\<bar> div 2 ^ nat (- e)))"

definition float_to_u64 :: "float \<Rightarrow> fault + u64" where
  "float_to_u64 x =
     (case x of
        Finite m e \<Rightarrow>
          (if 0 \<le> trunc_val m e \<and> trunc_val m e < 2 ^ 64
           then Inr (word_of_int (trunc_val m e)) else Inl OutOfBounds)
      | Infinity neg \<Rightarrow> Inl OutOfBounds
      | NaN \<Rightarrow> Inl OutOfBounds)"

text \<open>
  \<^verbatim>\<open>float m_interruptScales[15]\<close> is a public data member, initialised to \<^verbatim>\<open>1.0f\<close> fifteen
  times; the record holds it as it is when \<^verbatim>\<open>scheduleInterrupt\<close> is called.
  The source's parameter \<^verbatim>\<open>interrupt\<close> is \<open>irq\<close> here, the name being the field's.
  \<^verbatim>\<open>1 << interrupt\<close> is undefined from 32 on, \<^verbatim>\<open>m_interruptScales[interrupt]\<close> from 15 on.
  \<^verbatim>\<open>PSXIRQ_LOG\<close> only prints.
\<close>

definition scheduleInterrupt :: "R3000Acpu \<Rightarrow> u32 \<Rightarrow> u32 \<Rightarrow> fault + R3000Acpu" where
  "scheduleInterrupt s irq eCycle =
     (if 32 \<le> unat irq then Inl OutOfBounds
      else if interrupt (m_regs s) AND push_bit (unat irq) 1 \<noteq> 0 then Inr s
      else if 15 \<le> unat irq then Inl OutOfBounds
      else
        case float_to_u64 (float_mul (float_of_u32 eCycle) (m_interruptScales s (unat irq))) of
          Inl e \<Rightarrow> Inl e
        | Inr scaled \<Rightarrow>
            let cycle = cycle (m_regs s);
                target = cycle + scaled;
                regs = (m_regs s)\<lparr>interrupt := interrupt (m_regs s) OR push_bit (unat irq) 1\<rparr>;
                regs = regs\<lparr>intTargets := (intTargets regs)(unat irq := target)\<rparr>;
                regs = (if target < lowestTarget regs then regs\<lparr>lowestTarget := target\<rparr>
                        else regs)
            in Inr (s\<lparr>m_regs := regs\<rparr>))"

section \<open>Shell milestone\<close>

text \<open>
  \<^verbatim>\<open>hasToRun\<close> signals \<^verbatim>\<open>Events::ExecutionFlow::ShellReached\<close> on the event bus and returns
  \<^verbatim>\<open>g_system->running()\<close>. The bus is the list of events signalled so far; what
  \<^verbatim>\<open>running()\<close> returns is the parameter \<open>running\<close>.
\<close>

datatype event = ShellReached

definition hasToRun :: "bool \<Rightarrow> R3000Acpu \<Rightarrow> event list \<Rightarrow> bool \<times> R3000Acpu \<times> event list" where
  "hasToRun running s bus =
     (if \<not> m_shellStarted s then
        (if pc (m_regs s) = 0x80030000
         then (running, s\<lparr>m_shellStarted := True\<rparr>, bus @ [ShellReached])
         else (running, s, bus))
      else (running, s, bus))"

text \<open>
  A sequence of execution steps, seen from \<^verbatim>\<open>hasToRun\<close>: the run loop calls it once per
  step, and between two calls the executed instruction changes \<^verbatim>\<open>m_regs\<close>, of which
  \<^verbatim>\<open>hasToRun\<close> reads \<^verbatim>\<open>pc\<close> only. \<open>execute_steps s pcs\<close> runs one step per element of
  \<open>pcs\<close>, the program counter at that step, and lists what each step signalled.
\<close>

fun execute_steps :: "R3000Acpu \<Rightarrow> u32 list \<Rightarrow> event list list" where
  "execute_steps s [] = []"
| "execute_steps s (p # ps) =
     (case hasToRun True (s\<lparr>m_regs := (m_regs s)\<lparr>pc := p\<rparr>\<rparr>) [] of
        (r, s', signalled) \<Rightarrow> signalled # execute_steps s' ps)"

section \<open>Kernel-call interception\<close>

text \<open>
  \<^verbatim>\<open>processA0KernelCall\<close>, \<^verbatim>\<open>processB0KernelCall\<close> and the three \<^verbatim>\<open>log..KernelCall\<close> are
  declared in the header and defined elsewhere: a call of one of them is a value of
  \<open>kernelCall\<close> carrying its argument, and \<^verbatim>\<open>InterceptBIOS\<close> yields the calls it makes, in
  order. \<^verbatim>\<open>g_emulator->getRamMask()\<close> and the \<^verbatim>\<open>KernelLog\<close> debug setting are parameters,
  as is the template argument \<^verbatim>\<open>checkPC\<close>. \<^verbatim>\<open>GPR.n.t1\<close> is \<^verbatim>\<open>GPR.r[9]\<close>.
\<close>

datatype kernelCall =
  ProcessA0 u32 | ProcessB0 u32 | LogA0 u32 | LogB0 u32 | LogC0 u32

definition InterceptBIOS :: "bool \<Rightarrow> u32 \<Rightarrow> bool \<Rightarrow> R3000Acpu \<Rightarrow> u32 \<Rightarrow> kernelCall list" where
  "InterceptBIOS checkPC ramMask kernelLog s currentPC =
     (let pc = currentPC AND ramMask;
          base = drop_bit 20 currentPC AND 0xffc
      in if checkPC \<and> base \<noteq> 0x000 \<and> base \<noteq> 0x800 \<and> base \<noteq> 0xa00 then []
         else
           let call = GPR (m_regs s) 9 AND 0xff
           in (if pc = 0xa0 then [ProcessA0 call]
               else if pc = 0xb0 then [ProcessB0 call]
               else [])
              @ (if kernelLog then
                   (if pc = 0xa0 then [LogA0 call]
                    else if pc = 0xb0 then [LogB0 call]
                    else if pc = 0xc0 then [LogC0 call]
                    else [])
                 else []))"

section \<open>Instruction cache\<close>

text \<open>
  The memory collaborator \<^verbatim>\<open>g_emulator->m_mem\<close> is not part of the header. Its
  \<^verbatim>\<open>read32(addr, Memory::ReadType::Instr)\<close> is the parameter \<open>rd\<close>, a function from the
  memory's state and the address to the word read and the memory's next state, so a read
  may have an effect. \<open>instrReads\<close> lists the addresses of the instruction-typed reads
  issued so far.
\<close>

record 'm Memory =
  contents :: 'm
  instrReads :: "u32 list"

definition read32 :: "('m \<Rightarrow> u32 \<Rightarrow> u32 \<times> 'm) \<Rightarrow> 'm Memory \<Rightarrow> u32 \<Rightarrow> u32 \<times> 'm Memory" where
  "read32 rd mem a =
     (case rd (contents mem) a of
        (w, m') \<Rightarrow> (w, \<lparr>contents = m', instrReads = instrReads mem @ [a]\<rparr>))"

text \<open>
  \<^verbatim>\<open>*(uint32_t *)(p + off)\<close> on a little-endian host, where \<^verbatim>\<open>SWAP_LE32\<close> is the identity.
  Both cache arrays have \<^verbatim>\<open>0x1000\<close> bytes; a load of four bytes that does not fit is
  \<open>OutOfBounds\<close>. The stores of the header are at an offset \<^verbatim>\<open>(pc & 0xfff & ~0xf) + k\<close> with
  \<open>k\<close> at most \<^verbatim>\<open>0xc\<close>, which always fits.
\<close>

definition load32 :: "(nat \<Rightarrow> u8) \<Rightarrow> nat \<Rightarrow> fault + u32" where
  "load32 a off =
     (if off + 4 \<le> 0x1000
      then Inr (ucast (a off) OR push_bit 8 (ucast (a (off + 1)))
                OR push_bit 16 (ucast (a (off + 2))) OR push_bit 24 (ucast (a (off + 3))))
      else Inl OutOfBounds)"

definition store32 :: "(nat \<Rightarrow> u8) \<Rightarrow> nat \<Rightarrow> u32 \<Rightarrow> (nat \<Rightarrow> u8)" where
  "store32 a off v =
     a(off := ucast v, off + 1 := ucast (drop_bit 8 v),
       off + 2 := ucast (drop_bit 16 v), off + 3 := ucast (drop_bit 24 v))"

definition invalidateCache :: "R3000Acpu \<Rightarrow> R3000Acpu" where
  "invalidateCache s =
     s\<lparr>m_regs := (m_regs s)\<lparr>iCacheAddr := (\<lambda>_. 0xff), iCacheCode := (\<lambda>_. 0xff)\<rparr>\<rparr>"

definition flushICacheLine :: "R3000Acpu \<Rightarrow> u32 \<Rightarrow> R3000Acpu" where
  "flushICacheLine s = (\<lambda>pc.
      let pcBank = drop_bit 24 pc
      in if pcBank = 0x00 \<or> pcBank = 0x80 then
           let pcCache = pc AND 0xfff;
               pcCache = unat (pcCache AND NOT 0xf);
               iAddr = iCacheAddr (m_regs s);
               iCode = iCacheCode (m_regs s);
               iAddr = store32 iAddr (pcCache + 0x0) 0xff;
               iAddr = store32 iAddr (pcCache + 0x4) 0xff;
               iAddr = store32 iAddr (pcCache + 0x8) 0xff;
               iAddr = store32 iAddr (pcCache + 0xc) 0xff;
               iCode = store32 iCode (pcCache + 0x0) 0xff;
               iCode = store32 iCode (pcCache + 0x4) 0xff;
               iCode = store32 iCode (pcCache + 0x8) 0xff;
               iCode = store32 iCode (pcCache + 0xc) 0xff
           in s\<lparr>m_regs := (m_regs s)\<lparr>iCacheAddr := iAddr, iCacheCode := iCode\<rparr>\<rparr>
         else s)"

definition readICache ::
  "('m \<Rightarrow> u32 \<Rightarrow> u32 \<times> 'm) \<Rightarrow> R3000Acpu \<Rightarrow> 'm Memory \<Rightarrow> u32
     \<Rightarrow> fault + (u32 \<times> R3000Acpu \<times> 'm Memory)" where
  "readICache rd s mem = (\<lambda>pc.
      let pcBank = drop_bit 24 pc
      in if pcBank = 0x00 \<or> pcBank = 0x80 then
           let pcOffset = pc AND 0xffffff;
               pcCache = pc AND 0xfff;
               iAddr = iCacheAddr (m_regs s);
               iCode = iCacheCode (m_regs s)
           in case load32 iAddr (unat pcCache) of
                Inl e \<Rightarrow> Inl e
              | Inr tag \<Rightarrow>
                  if tag = pcOffset then
                    (case load32 iCode (unat pcCache) of
                       Inl e \<Rightarrow> Inl e
                     | Inr w \<Rightarrow> Inr (w, s, mem))
                  else
                    let pcOffset = pcOffset AND NOT 0xf;
                        pcCache = unat (pcCache AND NOT 0xf);
                        iAddr = store32 iAddr (pcCache + 0x0) (pcOffset + 0x0);
                        iAddr = store32 iAddr (pcCache + 0x4) (pcOffset + 0x4);
                        iAddr = store32 iAddr (pcCache + 0x8) (pcOffset + 0x8);
                        iAddr = store32 iAddr (pcCache + 0xc) (pcOffset + 0xc);
                        pcOffset = pc AND NOT 0xf;
                        r0 = read32 rd mem (pcOffset + 0x0);
                        iCode = store32 iCode (pcCache + 0x0) (fst r0);
                        r1 = read32 rd (snd r0) (pcOffset + 0x4);
                        iCode = store32 iCode (pcCache + 0x4) (fst r1);
                        r2 = read32 rd (snd r1) (pcOffset + 0x8);
                        iCode = store32 iCode (pcCache + 0x8) (fst r2);
                        r3 = read32 rd (snd r2) (pcOffset + 0xc);
                        iCode = store32 iCode (pcCache + 0xc) (fst r3);
                        s = s\<lparr>m_regs := (m_regs s)\<lparr>iCacheAddr := iAddr, iCacheCode := iCode\<rparr>\<rparr>;
                        r = read32 rd (snd r3) pc
                    in Inr (fst r, s, snd r)
         else
           let r = read32 rd mem pc
           in Inr (fst r, s, snd r))"

text \<open>
  Modelled from the spec: \<^verbatim>\<open>Clear(Addr, Size)\<close> is pure virtual in the header and its
  overrides are in no source file at hand. The spec says that it "informs the engine that
  a memory range has been overwritten, forcing cache invalidation", and that
  \<^verbatim>\<open>invalidateLine(pc)\<close> "clears an entire line (used after code writes)": the model
  invalidates, with \<^verbatim>\<open>flushICacheLine\<close>, the line of every address of the range
  \<open>Addr, Addr + 1, ..\<close> of \<open>Size\<close> addresses, in 32-bit address arithmetic.
\<close>

definition Clear :: "R3000Acpu \<Rightarrow> u32 \<Rightarrow> u32 \<Rightarrow> R3000Acpu" where
  "Clear s Addr Size = foldl (\<lambda>s k. flushICacheLine s (Addr + of_nat k)) s [0..<unat Size]"

text \<open>The reads a sequence of \<^verbatim>\<open>read32\<close> calls returns, and the memory after them.\<close>

fun read32s :: "('m \<Rightarrow> u32 \<Rightarrow> u32 \<times> 'm) \<Rightarrow> 'm Memory \<Rightarrow> u32 list \<Rightarrow> u32 list \<times> 'm Memory" where
  "read32s rd mem [] = ([], mem)"
| "read32s rd mem (a # as) =
     (case read32 rd mem a of
        (w, mem') \<Rightarrow> (case read32s rd mem' as of (ws, mem'') \<Rightarrow> (w # ws, mem'')))"

section \<open>Example states\<close>

text \<open>
  A processor as its constructor and \<^verbatim>\<open>Reset\<close> leave it (the default member initialisers,
  an invalidated cache, no armed interrupt), with the registers at zero and the program
  counter at the firmware's entry point.
\<close>

definition cpu0 :: R3000Acpu where
  "cpu0 =
     \<lparr>m_regs = \<lparr>GPR = (\<lambda>_. 0), pc = 0xbfc00000, cycle = 0, interrupt = 0,
                intTargets = (\<lambda>_. 0), lowestTarget = 0,
                iCacheAddr = (\<lambda>_. 0xff), iCacheCode = (\<lambda>_. 0xff)\<rparr>,
      m_interruptScales = (\<lambda>_. Finite 1 0),
      m_shellStarted = False,
      m_delayedLoadInfo = (\<lambda>_. delayedLoadInfo0),
      m_currentDelayedLoad = 0\<rparr>"

text \<open>Sequencing of two calls, the second running only when the first returned.\<close>

definition and_then :: "fault + 'a \<Rightarrow> ('a \<Rightarrow> fault + 'b) \<Rightarrow> fault + 'b" where
  "and_then r f = (case r of Inl e \<Rightarrow> Inl e | Inr x \<Rightarrow> f x)"

text \<open>What a register holds after a call, when the call returned.\<close>

definition reg_after :: "fault + R3000Acpu \<Rightarrow> nat \<Rightarrow> u32 option" where
  "reg_after r i = (case r of Inl e \<Rightarrow> None | Inr s \<Rightarrow> Some (GPR (m_regs s) i))"

text \<open>An interrupt source's deadline after a call, when the call returned.\<close>

definition target_after :: "fault + R3000Acpu \<Rightarrow> nat \<Rightarrow> u64 option" where
  "target_after r i = (case r of Inl e \<Rightarrow> None | Inr s \<Rightarrow> Some (intTargets (m_regs s) i))"

text \<open>The test \<^verbatim>\<open>pcBank == 0x00 || pcBank == 0x80\<close> of both cache functions.\<close>

definition cacheable :: "u32 \<Rightarrow> bool" where
  "cacheable a \<longleftrightarrow> drop_bit 24 a = 0x00 \<or> drop_bit 24 a = 0x80"

text \<open>
  A memory whose reads have no effect: its state is the function from addresses to words,
  and \<open>mem0\<close> holds at every address the address itself, with no read issued yet.
\<close>

definition ram_read :: "(u32 \<Rightarrow> u32) \<Rightarrow> u32 \<Rightarrow> u32 \<times> (u32 \<Rightarrow> u32)" where
  "ram_read m a = (m a, m)"

definition mem0 :: "(u32 \<Rightarrow> u32) Memory" where
  "mem0 = \<lparr>contents = (\<lambda>a. a), instrReads = []\<rparr>"

text \<open>The instruction-typed reads issued up to the end of a fetch, when the fetch returned.\<close>

definition reads_after :: "fault + (u32 \<times> R3000Acpu \<times> 'm Memory) \<Rightarrow> u32 list option" where
  "reads_after r = (case r of Inl e \<Rightarrow> None | Inr (w, s, mem) \<Rightarrow> Some (instrReads mem))"

text \<open>
  The four bytes that \<^verbatim>\<open>flushICacheLine\<close> leaves in a tag word: the 32-bit value
  \<^verbatim>\<open>0xff\<close>, little endian.
\<close>

definition tag_invalid :: "(nat \<Rightarrow> u8) \<Rightarrow> nat \<Rightarrow> bool" where
  "tag_invalid A off \<longleftrightarrow> A off = 0xff \<and> A (off + 1) = 0 \<and> A (off + 2) = 0 \<and> A (off + 3) = 0"

section \<open>Delayed loads: properties\<close>

lemma flush_active:
  assumes "m_currentDelayedLoad s < 2"
    and "active (m_delayedLoadInfo s (m_currentDelayedLoad s))"
    and "unat (index (m_delayedLoadInfo s (m_currentDelayedLoad s))) < 34"
  shows "flushCurrentDelayedLoad s =
     Inr (s\<lparr>m_regs := (m_regs s)\<lparr>GPR := (GPR (m_regs s))
               (unat (index (m_delayedLoadInfo s (m_currentDelayedLoad s))) :=
                  (GPR (m_regs s) (unat (index (m_delayedLoadInfo s (m_currentDelayedLoad s))))
                     AND mask' (m_delayedLoadInfo s (m_currentDelayedLoad s)))
                  OR value (m_delayedLoadInfo s (m_currentDelayedLoad s)))\<rparr>,
            m_delayedLoadInfo := (m_delayedLoadInfo s)
              (m_currentDelayedLoad s :=
                 (m_delayedLoadInfo s (m_currentDelayedLoad s))\<lparr>active := False\<rparr>)\<rparr>)"
  using assms by (simp add: flushCurrentDelayedLoad_def Let_def)

lemma flush_inactive:
  assumes "m_currentDelayedLoad s < 2"
    and "\<not> active (m_delayedLoadInfo s (m_currentDelayedLoad s))"
  shows "flushCurrentDelayedLoad s = Inr s"
  using assms by (simp add: flushCurrentDelayedLoad_def Let_def)

text \<open>
  Claim C5, as the code has it. Committing an active slot that holds target index \<open>i\<close>,
  bitmask \<open>m\<close> and pending value \<open>v\<close> sets register \<open>i\<close> to \<open>(old AND m) OR v\<close>: the bits of
  the old register value that \<open>m\<close> selects are the ones kept, all others are cleared, and
  the pending value is or-ed in. No other register changes and the slot becomes inactive.
\<close>

theorem flush_merges_masked_old_bits:
  assumes "m_currentDelayedLoad s = c" and "c < 2"
    and "m_delayedLoadInfo s c = d" and "active d" and "unat (index d) < 34"
  shows "\<exists>s'. flushCurrentDelayedLoad s = Inr s'
           \<and> GPR (m_regs s') (unat (index d))
               = (GPR (m_regs s) (unat (index d)) AND mask' d) OR value d
           \<and> (\<forall>j. j \<noteq> unat (index d) \<longrightarrow> GPR (m_regs s') j = GPR (m_regs s) j)
           \<and> \<not> active (m_delayedLoadInfo s' c)
           \<and> m_currentDelayedLoad s' = c"
  using assms flush_active [of s] by simp

theorem flush_merges_masked_old_bits_witness:
  "\<exists>s'. flushCurrentDelayedLoad
           (cpu0\<lparr>m_delayedLoadInfo := (\<lambda>_. delayedLoadInfo0)
                    (0 := \<lparr>index = 1, value = 0x11000000, mask' = 0xffffff, pcValue = 0,
                           active = True, pcActive = False, fromLink = False\<rparr>),
                  m_regs := (m_regs cpu0)\<lparr>GPR := (\<lambda>_. 0)(1 := 0xAABBCCDD)\<rparr>\<rparr>) = Inr s'
         \<and> GPR (m_regs s') 1 = 0x11BBCCDD
         \<and> \<not> active (m_delayedLoadInfo s' 0)"
  using flush_merges_masked_old_bits [of
           "cpu0\<lparr>m_delayedLoadInfo := (\<lambda>_. delayedLoadInfo0)
                    (0 := \<lparr>index = 1, value = 0x11000000, mask' = 0xffffff, pcValue = 0,
                           active = True, pcActive = False, fromLink = False\<rparr>),
                  m_regs := (m_regs cpu0)\<lparr>GPR := (\<lambda>_. 0)(1 := 0xAABBCCDD)\<rparr>\<rparr>" 0
           "\<lparr>index = 1, value = 0x11000000, mask' = 0xffffff, pcValue = 0,
                           active = True, pcActive = False, fromLink = False\<rparr>"]
  by (auto simp: cpu0_def)

text \<open>
  Claim C5 as stated reads the bitmask the other way round (the selected bits replaced, the
  rest preserved, that is \<open>(old AND NOT m) OR (v AND m)\<close>). \<^verbatim>\<open>delayedLoad(1, 5)\<close> with the
  default mask 0 on a register holding 7, then the flush: the register holds 5, where the
  claim's reading leaves it at 7.
\<close>

theorem flush_replaces_masked_bits_counterexample:
  "reg_after (and_then (delayedLoad (cpu0\<lparr>m_regs := (m_regs cpu0)\<lparr>GPR := (\<lambda>_. 0)(1 := 7)\<rparr>\<rparr>) 1 5 0)
                flushCurrentDelayedLoad) 1 = Some 5
   \<and> (5 :: u32) \<noteq> (7 AND NOT 0) OR (5 AND 0)"
  by (simp add: reg_after_def and_then_def delayedLoad_def delayedLoadRef_def
        flushCurrentDelayedLoad_def cpu0_def delayedLoadInfo0_def Let_def word_le_nat_alt)

text \<open>
  Claim C8. A hazard-buffer write through \<^verbatim>\<open>delayedLoadRef\<close> or \<^verbatim>\<open>delayedLoad\<close> aborts when
  the register index is 32 or more, and does not abort when it is below 32; with the
  current slot number in range it then returns, the slot holding the index, the mask and
  the value.
\<close>

theorem hazard_write_aborts_iff_out_of_range:
  "(32 \<le> reg \<longrightarrow> delayedLoadRef s reg msk = Inl Abort \<and> delayedLoad s reg v msk = Inl Abort)
   \<and> (reg < 32 \<longrightarrow> delayedLoadRef s reg msk \<noteq> Inl Abort \<and> delayedLoad s reg v msk \<noteq> Inl Abort)
   \<and> (reg < 32 \<and> m_currentDelayedLoad s < 2 \<longrightarrow>
        (\<exists>s'. delayedLoad s reg v msk = Inr s'
           \<and> m_delayedLoadInfo s' (m_currentDelayedLoad s)
               = (m_delayedLoadInfo s (m_currentDelayedLoad s))
                   \<lparr>active := True, index := reg, mask' := msk, value := v\<rparr>))"
  by (auto simp: delayedLoad_def delayedLoadRef_def Let_def not_le split: sum.splits)

theorem hazard_write_aborts_iff_out_of_range_witness:
  "delayedLoadRef cpu0 32 0 = Inl Abort \<and> delayedLoad cpu0 32 5 0 = Inl Abort
   \<and> delayedLoadRef cpu0 31 0 \<noteq> Inl Abort \<and> delayedLoad cpu0 31 5 0 \<noteq> Inl Abort
   \<and> (\<exists>s'. delayedLoad cpu0 31 5 0 = Inr s')"
  using hazard_write_aborts_iff_out_of_range [of 32 cpu0 0 5]
    hazard_write_aborts_iff_out_of_range [of 31 cpu0 0 5]
  by (auto simp: cpu0_def word_le_nat_alt word_less_nat_alt)

text \<open>
  Claim C2, as the code has it. The header discards no write to register 0: when register 0
  holds zero before the commit of the current delayed-load slot, it holds zero afterwards
  exactly when the slot is inactive, or targets another index, or its pending value is zero.
\<close>

theorem flush_keeps_zero_register_iff:
  assumes "m_currentDelayedLoad s = c" and "c < 2"
    and "m_delayedLoadInfo s c = d" and "unat (index d) < 34"
    and "GPR (m_regs s) 0 = 0"
  shows "\<exists>s'. flushCurrentDelayedLoad s = Inr s'
           \<and> (GPR (m_regs s') 0 = 0 \<longleftrightarrow> \<not> active d \<or> index d \<noteq> 0 \<or> value d = 0)"
proof (cases "active d")
  case True
  then show ?thesis
    using assms flush_active [of s] by (auto simp: unat_eq_0)
next
  case False
  then show ?thesis
    using assms flush_inactive [of s] by simp
qed

theorem flush_keeps_zero_register_iff_witness:
  "\<exists>s'. flushCurrentDelayedLoad
           (cpu0\<lparr>m_delayedLoadInfo := (\<lambda>_. delayedLoadInfo0)
                    (0 := delayedLoadInfo0\<lparr>active := True, index := 3, value := 5\<rparr>)\<rparr>) = Inr s'
         \<and> GPR (m_regs s') 0 = 0"
  using flush_keeps_zero_register_iff [of
           "cpu0\<lparr>m_delayedLoadInfo := (\<lambda>_. delayedLoadInfo0)
                    (0 := delayedLoadInfo0\<lparr>active := True, index := 3, value := 5\<rparr>)\<rparr>" 0
           "delayedLoadInfo0\<lparr>active := True, index := 3, value := 5\<rparr>"]
  by (auto simp: cpu0_def delayedLoadInfo0_def)

text \<open>
  Claim C2 as stated fails: from a state where register 0 reads zero, \<^verbatim>\<open>delayedLoad(0, 5)\<close>
  followed by \<^verbatim>\<open>flushCurrentDelayedLoad()\<close> leaves 5 in register 0.
\<close>

theorem zero_register_write_counterexample:
  "GPR (m_regs cpu0) 0 = 0
   \<and> reg_after (and_then (delayedLoad cpu0 0 5 0) flushCurrentDelayedLoad) 0 = Some 5"
  by (simp add: reg_after_def and_then_def delayedLoad_def delayedLoadRef_def
        flushCurrentDelayedLoad_def cpu0_def delayedLoadInfo0_def Let_def word_le_nat_alt)

section \<open>Interrupt scheduling: properties\<close>

lemma armed_bit: "(w :: u32) AND 2 ^ n = 0 \<longleftrightarrow> \<not> bit w n"
  by (rule and_exp_eq_0_iff_not_bit)

lemma u32_to_float_small: "n < 16777216 \<Longrightarrow> u32_to_float n = n"
  by (subst u32_to_float_def, subst excess_bits.simps) simp

lemma excess_bits_2p24: "excess_bits 16777216 = 1"
  by (subst excess_bits.simps, subst excess_bits.simps) simp

lemma excess_bits_2p24_1: "excess_bits 16777217 = 1"
  by (subst excess_bits.simps, subst excess_bits.simps) simp

lemma u32_to_float_2p24: "u32_to_float 16777216 = 16777216"
  by (simp add: u32_to_float_def excess_bits_2p24)

lemma u32_to_float_exact: "n \<le> 16777216 \<Longrightarrow> u32_to_float n = n"
  using u32_to_float_small [of n] u32_to_float_2p24 by (cases "n = 16777216") auto

text \<open>
  Claim C3. For a source whose bit is set in the armed-bit word, \<^verbatim>\<open>scheduleInterrupt\<close> returns
  at once for every cycle count: the whole state is what it was, so the source's deadline,
  the armed-bit word and the cached lowest deadline are unchanged.
\<close>

theorem schedule_armed_noop:
  assumes "unat irq < 32" and "bit (interrupt (m_regs s)) (unat irq)"
  shows "scheduleInterrupt s irq eCycle = Inr s"
  using assms by (simp add: scheduleInterrupt_def armed_bit)

theorem schedule_armed_noop_witness:
  "scheduleInterrupt (cpu0\<lparr>m_regs := (m_regs cpu0)\<lparr>interrupt := 4, intTargets := (\<lambda>_. 0)(2 := 1000),
                                                    lowestTarget := 1000\<rparr>\<rparr>) 2 7
     = Inr (cpu0\<lparr>m_regs := (m_regs cpu0)\<lparr>interrupt := 4, intTargets := (\<lambda>_. 0)(2 := 1000),
                                            lowestTarget := 1000\<rparr>\<rparr>)"
  using schedule_armed_noop [of 2 "cpu0\<lparr>m_regs := (m_regs cpu0)\<lparr>interrupt := 4,
           intTargets := (\<lambda>_. 0)(2 := 1000), lowestTarget := 1000\<rparr>\<rparr>" 7]
  by simp

text \<open>
  The float product: a value of at most 24 bits is its own rounding, and so is the count as
  \<^verbatim>\<open>float\<close> holds it.
\<close>

lemma bitlen_le: "n < 2 ^ k \<Longrightarrow> bitlen n \<le> k"
proof (induction n arbitrary: k rule: bitlen.induct)
  case (1 n)
  show ?case
  proof (cases "n = 0")
    case True
    then show ?thesis by (subst bitlen.simps) simp
  next
    case False
    then obtain k' where k: "k = Suc k'"
      using "1.prems" by (cases k) auto
    then have "n div 2 < 2 ^ k'" using "1.prems" by simp
    then have "bitlen (n div 2) \<le> k'" using False by (rule "1.IH" [rotated])
    then show ?thesis using False k by (subst bitlen.simps) simp
  qed
qed

lemma bitlen_0: "bitlen 0 = 0"
  by (subst bitlen.simps) simp

lemma float_round_small:
  assumes "M < 2 ^ 24" and "- 149 \<le> E"
  shows "float_round neg M E =
     (if M \<noteq> 0 \<and> 128 < int (bitlen M) + E then Infinity neg
      else Finite (if neg then - int M else int M) E)"
proof -
  have "bitlen M \<le> 24" using assms(1) by (rule bitlen_le)
  then have "max (E + int (bitlen M) - 24) (- 149) \<le> E" using assms(2) by simp
  then show ?thesis by (simp add: float_round_def Let_def bitlen_0)
qed

lemma excess_bits_div: "n div 2 ^ excess_bits n < 2 ^ 24"
proof (induction n rule: excess_bits.induct)
  case (1 n)
  show ?case
  proof (cases "n < 2 ^ 24")
    case True
    then show ?thesis by (subst excess_bits.simps) simp
  next
    case False
    have "n div 2 ^ Suc (excess_bits (n div 2)) = n div 2 div 2 ^ excess_bits (n div 2)"
      by (simp add: div_mult2_eq)
    then show ?thesis
      using False "1.IH" by (subst excess_bits.simps) simp
  qed
qed

lemma excess_bits_le: "n < 2 ^ (24 + i) \<Longrightarrow> excess_bits n \<le> i"
proof (induction n arbitrary: i rule: excess_bits.induct)
  case (1 n)
  show ?case
  proof (cases "n < 2 ^ 24")
    case True
    then show ?thesis by (subst excess_bits.simps) simp
  next
    case False
    then obtain i' where i: "i = Suc i'"
      using "1.prems" by (cases i) auto
    then have "n < 2 * 2 ^ (24 + i')" using "1.prems" by (simp only: add_Suc_right power_Suc)
    then have "n div 2 < 2 ^ (24 + i')" by linarith
    then have "excess_bits (n div 2) \<le> i'" using False by (rule "1.IH" [rotated])
    then show ?thesis using False i by (subst excess_bits.simps) simp
  qed
qed

lemma if_either: "(if c then a else b) = a \<or> (if c then a else b) = b"
  by simp

lemma u32_to_float_cases:
  "u32_to_float n = n div 2 ^ excess_bits n * 2 ^ excess_bits n
   \<or> u32_to_float n = (n div 2 ^ excess_bits n + 1) * 2 ^ excess_bits n"
proof (cases "excess_bits n = 0")
  case True
  then show ?thesis by (simp add: u32_to_float_def)
next
  case False
  then show ?thesis
    unfolding u32_to_float_def Let_def by (simp only: if_False if_either)
qed

lemma u32_to_float_form:
  assumes "n < 2 ^ 32"
  shows "\<exists>k j. u32_to_float n = k * 2 ^ j \<and> k < 2 ^ 24 \<and> j \<le> 9"
proof -
  define e where "e = excess_bits n"
  define q where "q = n div 2 ^ e"
  have q: "q < 2 ^ 24" unfolding q_def e_def by (rule excess_bits_div)
  have "n < 2 ^ (24 + 8)" using assms by simp
  then have e: "e \<le> 8" unfolding e_def by (rule excess_bits_le)
  consider "u32_to_float n = q * 2 ^ e" | "u32_to_float n = (q + 1) * 2 ^ e"
    using u32_to_float_cases [of n] unfolding q_def e_def by blast
  then show ?thesis
  proof cases
    case 1
    then show ?thesis using q e by (intro exI [of _ q] exI [of _ e]) simp
  next
    case 2
    show ?thesis
    proof (cases "q + 1 < 2 ^ 24")
      case True
      then show ?thesis using 2 e by (intro exI [of _ "q + 1"] exI [of _ e]) simp
    next
      case False
      then have "q + 1 = 2 * 2 ^ 23" using q by simp
      then have "u32_to_float n = 2 ^ 23 * 2 ^ Suc e" using 2 by (simp only: power_Suc mult_ac)
      moreover have "(2 :: nat) ^ 23 < 2 ^ 24" by simp
      moreover have "Suc e \<le> 9" using e by simp
      ultimately show ?thesis by blast
    qed
  qed
qed

lemma fits_24:
  assumes "k < 2 ^ 24"
  shows "2 ^ (bitlen (k * 2 ^ j) - 24) dvd k * 2 ^ j"
proof -
  have "k * 2 ^ j < 2 ^ 24 * 2 ^ j" using assms by simp
  then have "k * 2 ^ j < 2 ^ (24 + j)" by (simp only: power_add)
  then have "bitlen (k * 2 ^ j) \<le> 24 + j" by (rule bitlen_le)
  then have "bitlen (k * 2 ^ j) - 24 \<le> j" by simp
  then have "(2 :: nat) ^ (bitlen (k * 2 ^ j) - 24) dvd 2 ^ j" by (rule le_imp_power_dvd)
  then show ?thesis by (rule dvd_mult)
qed

lemma round_shift_exact: "2 ^ d dvd M \<Longrightarrow> round_shift M d = M div 2 ^ d"
  by (auto simp: round_shift_def Let_def)

lemma float_round_fits:
  assumes "2 ^ (bitlen M - 24) dvd M" and "M < 2 ^ 33"
  shows "float_to_u64 (float_round False M 0) = Inr (of_nat M)"
proof -
  have L: "bitlen M \<le> 33" using assms(2) by (rule bitlen_le)
  have M64: "int M < 2 ^ 64"
  proof -
    have "M < 2 ^ 64" using assms(2) by simp
    then show ?thesis by (metis of_nat_less_iff of_nat_numeral of_nat_power)
  qed
  show ?thesis
  proof (cases "bitlen M \<le> 24")
    case True
    then have "float_round False M 0 = Finite (int M) 0"
      by (simp add: float_round_def Let_def)
    then show ?thesis using M64 by (simp add: float_to_u64_def trunc_val_def)
  next
    case False
    define d where "d = bitlen M - 24"
    define q where "q = M div 2 ^ d"
    have d: "0 < d" "int (bitlen M) - 24 = int d" "d \<le> 33"
      using False L unfolding d_def by simp_all
    have dv: "2 ^ d dvd M" using assms(1) unfolding d_def .
    then have M: "q * 2 ^ d = M" unfolding q_def by simp
    have "q \<le> M" unfolding q_def by simp
    then have "q < 2 ^ 33" using assms(2) by simp
    then have "bitlen q \<le> 33" by (rule bitlen_le)
    then have nov: "\<not> 128 < int (bitlen q) + int d" using d(3) by simp
    have "float_round False M 0 = Finite (int q) (int d)"
      using d(1) nov
      by (simp add: float_round_def Let_def d(2) round_shift_exact [OF dv] q_def [symmetric])
    moreover have "trunc_val (int q) (int d) = int M"
    proof -
      have "int (q * 2 ^ d) = int M" using M by (rule arg_cong)
      then have "int q * 2 ^ d = int M" by (simp only: of_nat_mult of_nat_power of_nat_numeral)
      then show ?thesis by (simp add: trunc_val_def)
    qed
    ultimately show ?thesis using M64 by (simp add: float_to_u64_def)
  qed
qed

lemma default_scale_converts:
  "float_to_u64 (float_mul (float_of_u32 w) (Finite 1 0)) = Inr (of_nat (u32_to_float (unat w)))"
proof -
  have "unat w < 2 ^ 32" using unsigned_less [of w, where 'a = nat] by simp
  then obtain k j where kj: "u32_to_float (unat w) = k * 2 ^ j" "k < 2 ^ 24" "j \<le> 9"
    using u32_to_float_form by blast
  have "(2 :: nat) ^ j \<le> 2 ^ 9" using kj(3) by (intro power_increasing) simp_all
  then have "k * 2 ^ j < 2 ^ 24 * 2 ^ 9"
    using kj(2) by (intro mult_less_le_imp_less) simp_all
  then have b: "u32_to_float (unat w) < 2 ^ 33" unfolding kj(1) by simp
  have f: "2 ^ (bitlen (u32_to_float (unat w)) - 24) dvd u32_to_float (unat w)"
    unfolding kj(1) using kj(2) by (rule fits_24)
  have "float_mul (float_of_u32 w) (Finite 1 0) = float_round False (u32_to_float (unat w)) 0"
    by (simp add: float_of_u32_def)
  then show ?thesis using float_round_fits [OF f b] by simp
qed

lemma small_product_converts:
  assumes "0 \<le> m" and "- 149 \<le> e" and "int (unat w) * m < 2 ^ 24"
    and "trunc_val (int (unat w) * m) e < 2 ^ 64"
  shows "float_to_u64 (float_mul (float_of_u32 w) (Finite m e))
           = Inr (word_of_int (trunc_val (int (unat w) * m) e))"
proof -
  have prod: "int (u32_to_float (unat w)) * m = int (unat w) * m"
  proof (cases "m = 0")
    case True
    then show ?thesis by simp
  next
    case False
    then have "1 \<le> m" using assms(1) by simp
    then have "int (unat w) * 1 \<le> int (unat w) * m" by (intro mult_left_mono) simp_all
    then have "int (unat w) < int 16777216" using assms(3) by simp
    then have "unat w < 16777216" by (simp only: of_nat_less_iff)
    then show ?thesis by (simp add: u32_to_float_small)
  qed
  define M where "M = nat (int (unat w) * m)"
  have Mi: "int M = int (unat w) * m" unfolding M_def using assms(1) by simp
  have "int M < 2 ^ 24" using assms(3) Mi by simp
  then have M: "M < 2 ^ 24" by (metis of_nat_less_iff of_nat_numeral of_nat_power)
  then have L: "bitlen M \<le> 24" by (rule bitlen_le)
  have mul: "float_mul (float_of_u32 w) (Finite m e) = float_round False M e"
    using assms(1) by (simp add: float_of_u32_def prod M_def mult_less_0_iff)
  have t: "trunc_val (int M) e < 2 ^ 64" using assms(4) Mi by simp
  have nonneg: "0 \<le> trunc_val (int M) e"
    by (simp add: trunc_val_def sgn_if pos_imp_zdiv_nonneg_iff)
  have fin: "\<not> (M \<noteq> 0 \<and> 128 < int (bitlen M) + e)"
  proof (cases "0 \<le> e \<and> M \<noteq> 0")
    case True
    then have "(2 :: int) ^ nat e * 1 \<le> 2 ^ nat e * int M"
      by (intro mult_left_mono) simp_all
    also have "\<dots> < 2 ^ 64" using t True by (simp add: trunc_val_def mult.commute)
    finally have "(2 :: int) ^ nat e < 2 ^ 64" by simp
    then have "nat e < 64" by (simp only: power_strict_increasing_iff one_less_numeral_iff semiring_norm)
    then have "e < 64" by simp
    then show ?thesis using L by simp
  next
    case False
    then show ?thesis using L by auto
  qed
  show ?thesis
    unfolding mul float_round_small [OF M assms(2)] Mi [symmetric]
    using fin t nonneg by (simp add: float_to_u64_def)
qed

text \<open>
  Claim C4, as the code has it. For an unarmed source (one of the fifteen that have a scale
  factor), whenever the scaled count converts to \<^verbatim>\<open>uint64_t\<close>, \<^verbatim>\<open>scheduleInterrupt\<close> sets
  the source's bit, sets its deadline to the current cycle plus the scaled count (64-bit
  addition), and lowers the cached lowest deadline to the new deadline when that is
  smaller, leaving it unchanged otherwise. The scaled count is the integer part of the
  float product of the count, as \<^verbatim>\<open>float\<close> holds it, and the source's scale factor. For a
  scale factor \<open>m * 2 ^ e\<close> that is not negative and a product \<open>count * m\<close> below \<open>2 ^ 24\<close>
  no rounding occurs: the call returns and the deadline is the current cycle plus the
  integer part of \<open>count * m * 2 ^ e\<close>. For the default scale factor \<^verbatim>\<open>1.0f\<close> the call
  returns for every count, and the deadline is the current cycle plus the count rounded to
  24 significant bits, which is the count itself up to \<open>2 ^ 24\<close>.
\<close>

theorem schedule_unarmed:
  assumes "unat irq < 15" and "\<not> bit (interrupt (m_regs s)) (unat irq)"
  shows "(\<forall>scaled.
            float_to_u64 (float_mul (float_of_u32 eCycle) (m_interruptScales s (unat irq)))
              = Inr scaled
            \<longrightarrow> (\<exists>s'. scheduleInterrupt s irq eCycle = Inr s'
                   \<and> interrupt (m_regs s') = interrupt (m_regs s) OR push_bit (unat irq) 1
                   \<and> bit (interrupt (m_regs s')) (unat irq)
                   \<and> intTargets (m_regs s') (unat irq) = cycle (m_regs s) + scaled
                   \<and> lowestTarget (m_regs s')
                       = (if cycle (m_regs s) + scaled < lowestTarget (m_regs s)
                          then cycle (m_regs s) + scaled else lowestTarget (m_regs s))))
     \<and> (\<forall>m e. m_interruptScales s (unat irq) = Finite m e \<and> 0 \<le> m \<and> - 149 \<le> e
               \<and> uint eCycle * m < 2 ^ 24 \<and> trunc_val (uint eCycle * m) e < 2 ^ 64
            \<longrightarrow> (\<exists>s'. scheduleInterrupt s irq eCycle = Inr s'
                   \<and> intTargets (m_regs s') (unat irq)
                       = cycle (m_regs s) + word_of_int (trunc_val (uint eCycle * m) e)))
     \<and> (m_interruptScales s (unat irq) = Finite 1 0
            \<longrightarrow> (\<exists>s'. scheduleInterrupt s irq eCycle = Inr s'
                   \<and> intTargets (m_regs s') (unat irq)
                       = cycle (m_regs s) + of_nat (u32_to_float (unat eCycle))
                   \<and> (unat eCycle \<le> 2 ^ 24 \<longrightarrow>
                        intTargets (m_regs s') (unat irq) = cycle (m_regs s) + ucast eCycle)))"
proof -
  have general: "\<exists>s'. scheduleInterrupt s irq eCycle = Inr s'
           \<and> interrupt (m_regs s') = interrupt (m_regs s) OR push_bit (unat irq) 1
           \<and> bit (interrupt (m_regs s')) (unat irq)
           \<and> intTargets (m_regs s') (unat irq) = cycle (m_regs s) + scaled
           \<and> lowestTarget (m_regs s')
               = (if cycle (m_regs s) + scaled < lowestTarget (m_regs s)
                  then cycle (m_regs s) + scaled else lowestTarget (m_regs s))"
    if "float_to_u64 (float_mul (float_of_u32 eCycle) (m_interruptScales s (unat irq)))
          = Inr scaled" for scaled
    using assms that
    by (simp add: scheduleInterrupt_def armed_bit Let_def bit_or_iff bit_exp_iff)
  have product: "\<exists>s'. scheduleInterrupt s irq eCycle = Inr s'
           \<and> intTargets (m_regs s') (unat irq)
               = cycle (m_regs s) + word_of_int (trunc_val (uint eCycle * m) e)"
    if "m_interruptScales s (unat irq) = Finite m e \<and> 0 \<le> m \<and> - 149 \<le> e
          \<and> uint eCycle * m < 2 ^ 24 \<and> trunc_val (uint eCycle * m) e < 2 ^ 64" for m e
  proof -
    have "float_to_u64 (float_mul (float_of_u32 eCycle) (m_interruptScales s (unat irq)))
            = Inr (word_of_int (trunc_val (uint eCycle * m) e))"
      using that small_product_converts [of m e eCycle] by simp
    from general [OF this] show ?thesis by blast
  qed
  have default: "\<exists>s'. scheduleInterrupt s irq eCycle = Inr s'
           \<and> intTargets (m_regs s') (unat irq)
               = cycle (m_regs s) + of_nat (u32_to_float (unat eCycle))
           \<and> (unat eCycle \<le> 2 ^ 24 \<longrightarrow>
                intTargets (m_regs s') (unat irq) = cycle (m_regs s) + ucast eCycle)"
    if "m_interruptScales s (unat irq) = Finite 1 0"
  proof -
    have "float_to_u64 (float_mul (float_of_u32 eCycle) (m_interruptScales s (unat irq)))
            = Inr (of_nat (u32_to_float (unat eCycle)))"
      using that default_scale_converts [of eCycle] by simp
    from general [OF this] show ?thesis by (auto simp: u32_to_float_exact)
  qed
  from general product default show ?thesis by blast
qed

theorem schedule_unarmed_witness:
  "\<exists>s'. scheduleInterrupt
           (cpu0\<lparr>m_regs := (m_regs cpu0)\<lparr>cycle := 100, lowestTarget := 1000\<rparr>,
                  m_interruptScales := (\<lambda>_. Finite 1 0)(2 := Finite 3 (- 1))\<rparr>) 2 7 = Inr s'
      \<and> interrupt (m_regs s') = 4
      \<and> intTargets (m_regs s') 2 = 110
      \<and> lowestTarget (m_regs s') = 110"
proof -
  let ?s = "cpu0\<lparr>m_regs := (m_regs cpu0)\<lparr>cycle := 100, lowestTarget := 1000\<rparr>,
                  m_interruptScales := (\<lambda>_. Finite 1 0)(2 := Finite 3 (- 1))\<rparr>"
  have f: "float_of_u32 7 = Finite 7 0"
    by (simp add: float_of_u32_def u32_to_float_small)
  have r: "float_round False 21 (- 1) = Finite 21 (- 1)"
    using float_round_small [of 21 "- 1" False] bitlen_le [of 21 5] by simp
  have conv: "float_to_u64 (float_mul (float_of_u32 7) (m_interruptScales ?s (unat (2 :: u32))))
                = Inr 10"
    by (simp add: f r float_to_u64_def trunc_val_def)
  have un: "unat (2 :: u32) < 15" "\<not> bit (interrupt (m_regs ?s)) (unat (2 :: u32))"
    by (simp_all add: cpu0_def)
  from schedule_unarmed [OF un, of 7] conv show ?thesis
    by (auto simp: cpu0_def)
qed

text \<open>
  Claim C4 as stated fails for a cycle count that \<^verbatim>\<open>float\<close> cannot hold: with the default
  scale factor, current cycle 0 and \<open>2 ^ 24 + 1\<close> cycles from now, the deadline is
  \<open>2 ^ 24\<close>.
\<close>

theorem schedule_rounds_counterexample:
  "m_interruptScales cpu0 0 = Finite 1 0
   \<and> target_after (scheduleInterrupt cpu0 0 16777217) 0 = Some 16777216
   \<and> cycle (m_regs cpu0) + 16777217 \<noteq> (16777216 :: u64)"
proof -
  have "u32_to_float 16777217 = 16777216"
    by (simp add: u32_to_float_def excess_bits_2p24_1)
  then have "float_to_u64 (float_mul (float_of_u32 16777217) (Finite 1 0)) = Inr 16777216"
    using default_scale_converts [of 16777217] by simp
  then show ?thesis
    by (simp add: target_after_def scheduleInterrupt_def cpu0_def Let_def)
qed

section \<open>Shell milestone: properties\<close>

lemma execute_steps_started:
  "m_shellStarted s \<Longrightarrow> execute_steps s pcs = map (\<lambda>_. []) pcs"
  by (induction pcs arbitrary: s) (simp_all add: hasToRun_def)

text \<open>
  Claim C9. On a processor whose \<^verbatim>\<open>m_shellStarted\<close> is still false, over any sequence of
  steps, the steps signal \<^verbatim>\<open>ShellReached\<close> once in all when the program counter is
  \<^verbatim>\<open>0x80030000\<close> at some step and never otherwise, and the step that signals is the first
  one at which the program counter has that value: no later step signals, whatever its
  program counter.
\<close>

theorem shell_reached_signalled_once:
  assumes "\<not> m_shellStarted s"
  shows "concat (execute_steps s pcs) = (if 0x80030000 \<in> set pcs then [ShellReached] else [])
     \<and> (\<forall>i<length pcs. execute_steps s pcs ! i =
            (if pcs ! i = 0x80030000 \<and> 0x80030000 \<notin> set (take i pcs)
             then [ShellReached] else []))"
  using assms
proof (induction pcs arbitrary: s)
  case Nil
  then show ?case by simp
next
  case (Cons p ps)
  show ?case
  proof (cases "p = 0x80030000")
    case True
    have run: "execute_steps s (p # ps) = [ShellReached] # map (\<lambda>_. []) ps"
      using True Cons.prems by (simp add: hasToRun_def execute_steps_started)
    have "execute_steps s (p # ps) ! i =
            (if (p # ps) ! i = 0x80030000 \<and> 0x80030000 \<notin> set (take i (p # ps))
             then [ShellReached] else [])" if "i < length (p # ps)" for i
      unfolding run using that True by (cases i) simp_all
    then show ?thesis
      unfolding run using True by simp
  next
    case False
    let ?s = "s\<lparr>m_regs := (m_regs s)\<lparr>pc := p\<rparr>\<rparr>"
    have run: "execute_steps s (p # ps) = [] # execute_steps ?s ps"
      using False Cons.prems by (simp add: hasToRun_def)
    have ih: "concat (execute_steps ?s ps) = (if 0x80030000 \<in> set ps then [ShellReached] else [])"
      and ihn: "\<And>i. i < length ps \<Longrightarrow> execute_steps ?s ps ! i =
            (if ps ! i = 0x80030000 \<and> 0x80030000 \<notin> set (take i ps)
             then [ShellReached] else [])"
      using Cons.IH [of ?s] Cons.prems by simp_all
    have "execute_steps s (p # ps) ! i =
            (if (p # ps) ! i = 0x80030000 \<and> 0x80030000 \<notin> set (take i (p # ps))
             then [ShellReached] else [])" if "i < length (p # ps)" for i
      unfolding run using that False ihn by (cases i) simp_all
    then show ?thesis
      unfolding run using False ih by simp
  qed
qed

theorem shell_reached_signalled_once_witness:
  "concat (execute_steps cpu0 [0xbfc00000, 0x80030000, 0x80030004, 0x80030000]) = [ShellReached]
   \<and> execute_steps cpu0 [0xbfc00000, 0x80030000, 0x80030004, 0x80030000]
       = [[], [ShellReached], [], []]"
  using shell_reached_signalled_once [of cpu0 "[0xbfc00000, 0x80030000, 0x80030004, 0x80030000]"]
  by (simp add: cpu0_def hasToRun_def)

section \<open>Kernel-call interception: properties\<close>

lemma low_byte_cong:
  fixes a b :: u32
  assumes "unat a mod 256 = unat b mod 256"
  shows "a AND 0xff = b AND 0xff"
proof -
  have "take_bit 8 (unat a) = take_bit 8 (unat b)"
    using assms by (simp add: take_bit_eq_mod)
  then have "unat (take_bit 8 a) = unat (take_bit 8 b)"
    by (simp add: unsigned_take_bit_eq)
  then have "take_bit 8 a = take_bit 8 b"
    by (simp only: word_unat_eq_iff)
  then show ?thesis
    by (simp add: take_bit_eq_mask mask_eq_exp_minus_1)
qed

lemma low_byte_unat:
  fixes a :: u32
  shows "unat (a AND 0xff) = unat a mod 256"
proof -
  have "unat (a AND mask 8) = unat (take_bit 8 a)" by (simp only: take_bit_eq_mask)
  also have "\<dots> = take_bit 8 (unat a)" by (rule unsigned_take_bit_eq)
  also have "\<dots> = unat a mod 2 ^ 8" by (rule take_bit_eq_mod)
  finally show ?thesis by (simp add: mask_eq_exp_minus_1)
qed

text \<open>
  Claim C10. The call number is \<^verbatim>\<open>t1 & 0xff\<close>, the value of \<^verbatim>\<open>t1\<close> modulo 256. In a valid
  window (or with \<^verbatim>\<open>checkPC\<close> off) \<^verbatim>\<open>InterceptBIOS\<close> calls, with that call number: at
  \<^verbatim>\<open>0xa0\<close> the A0 semantic handler and, when kernel logging is on, the A0 logging handler;
  at \<^verbatim>\<open>0xb0\<close> the B0 semantic handler and, when logging is on, the B0 logging handler; at
  \<^verbatim>\<open>0xc0\<close> the C0 logging handler alone, when logging is on; and it calls nothing
  elsewhere or outside the windows. Two states whose \<^verbatim>\<open>t1\<close> are congruent modulo 256
  therefore make it call the same handlers with the same call number.
\<close>

theorem intercept_call_number_low_byte:
  assumes "unat (GPR (m_regs s) 9) mod 256 = unat (GPR (m_regs s') 9) mod 256"
    and "call = GPR (m_regs s) 9 AND 0xff"
    and "base = drop_bit 20 currentPC AND 0xffc"
    and "window \<longleftrightarrow> \<not> checkPC \<or> base = 0x000 \<or> base = 0x800 \<or> base = 0xa00"
  shows "InterceptBIOS checkPC ramMask kernelLog s currentPC
           = InterceptBIOS checkPC ramMask kernelLog s' currentPC
     \<and> unat call = unat (GPR (m_regs s) 9) mod 256
     \<and> (window \<and> currentPC AND ramMask = 0xa0 \<longrightarrow>
          InterceptBIOS checkPC ramMask kernelLog s currentPC
            = ProcessA0 call # (if kernelLog then [LogA0 call] else []))
     \<and> (window \<and> currentPC AND ramMask = 0xb0 \<longrightarrow>
          InterceptBIOS checkPC ramMask kernelLog s currentPC
            = ProcessB0 call # (if kernelLog then [LogB0 call] else []))
     \<and> (window \<and> currentPC AND ramMask = 0xc0 \<longrightarrow>
          InterceptBIOS checkPC ramMask kernelLog s currentPC
            = (if kernelLog then [LogC0 call] else []))
     \<and> (\<not> window \<or> currentPC AND ramMask \<notin> {0xa0, 0xb0, 0xc0} \<longrightarrow>
          InterceptBIOS checkPC ramMask kernelLog s currentPC = [])"
proof -
  have same: "InterceptBIOS checkPC ramMask kernelLog s currentPC
           = InterceptBIOS checkPC ramMask kernelLog s' currentPC"
    using low_byte_cong [OF assms(1)] by (simp add: InterceptBIOS_def Let_def)
  have num: "unat call = unat (GPR (m_regs s) 9) mod 256"
    unfolding assms(2) by (rule low_byte_unat)
  have a0: "InterceptBIOS checkPC ramMask kernelLog s currentPC
            = ProcessA0 call # (if kernelLog then [LogA0 call] else [])"
    if "window \<and> currentPC AND ramMask = 0xa0"
    using that unfolding assms(2,3,4) by (auto simp: InterceptBIOS_def Let_def)
  have b0: "InterceptBIOS checkPC ramMask kernelLog s currentPC
            = ProcessB0 call # (if kernelLog then [LogB0 call] else [])"
    if "window \<and> currentPC AND ramMask = 0xb0"
    using that unfolding assms(2,3,4) by (auto simp: InterceptBIOS_def Let_def)
  have c0: "InterceptBIOS checkPC ramMask kernelLog s currentPC
            = (if kernelLog then [LogC0 call] else [])"
    if "window \<and> currentPC AND ramMask = 0xc0"
    using that unfolding assms(2,3,4) by (auto simp: InterceptBIOS_def Let_def)
  have none: "InterceptBIOS checkPC ramMask kernelLog s currentPC = []"
    if "\<not> window \<or> currentPC AND ramMask \<notin> {0xa0, 0xb0, 0xc0}"
    using that unfolding assms(2,3,4) by (auto simp: InterceptBIOS_def Let_def)
  from same num a0 b0 c0 none show ?thesis by blast
qed

theorem intercept_call_number_low_byte_witness:
  "InterceptBIOS True 0x1fffff True (cpu0\<lparr>m_regs := (m_regs cpu0)\<lparr>GPR := (\<lambda>_. 0)(9 := 0x3d)\<rparr>\<rparr>) 0x800000b0
     = InterceptBIOS True 0x1fffff True (cpu0\<lparr>m_regs := (m_regs cpu0)\<lparr>GPR := (\<lambda>_. 0)(9 := 0x13d)\<rparr>\<rparr>) 0x800000b0
   \<and> InterceptBIOS True 0x1fffff True (cpu0\<lparr>m_regs := (m_regs cpu0)\<lparr>GPR := (\<lambda>_. 0)(9 := 0x13d)\<rparr>\<rparr>) 0x800000b0
     = [ProcessB0 0x3d, LogB0 0x3d]"
proof -
  let ?s = "cpu0\<lparr>m_regs := (m_regs cpu0)\<lparr>GPR := (\<lambda>_. 0)(9 := 0x13d)\<rparr>\<rparr>"
  let ?s' = "cpu0\<lparr>m_regs := (m_regs cpu0)\<lparr>GPR := (\<lambda>_. 0)(9 := 0x3d)\<rparr>\<rparr>"
  have 1: "unat (GPR (m_regs ?s) 9) mod 256 = unat (GPR (m_regs ?s') 9) mod 256" by simp
  have 2: "(0x3d :: u32) = GPR (m_regs ?s) 9 AND 0xff" by simp
  have 3: "(0x800 :: u32) = drop_bit 20 0x800000b0 AND 0xffc" by (simp add: drop_bit_eq_div)
  have 4: "True \<longleftrightarrow> \<not> True \<or> (0x800 :: u32) = 0x000 \<or> (0x800 :: u32) = 0x800 \<or> (0x800 :: u32) = 0xa00"
    by simp
  from intercept_call_number_low_byte [OF 1 2 3 4, of "0x1fffff" True]
  show ?thesis by auto
qed

section \<open>Instruction cache: properties\<close>

subsection \<open>Bytes and words\<close>

text \<open>Four bytes stored little endian load back as the word stored, and a store leaves
  every word it does not overlap.\<close>

lemma bytes_le32:
  fixes v :: u32
  shows "ucast (ucast v :: u8) OR push_bit 8 (ucast (ucast (drop_bit 8 v) :: u8))
         OR push_bit 16 (ucast (ucast (drop_bit 16 v) :: u8))
         OR push_bit 24 (ucast (ucast (drop_bit 24 v) :: u8)) = v"
proof (rule bit_word_eqI)
  fix n :: nat
  assume n: "n < LENGTH(32)"
  show "bit (ucast (ucast v :: u8) OR push_bit 8 (ucast (ucast (drop_bit 8 v) :: u8))
         OR push_bit 16 (ucast (ucast (drop_bit 16 v) :: u8))
         OR push_bit 24 (ucast (ucast (drop_bit 24 v) :: u8)) :: u32) n = bit v n"
  proof -
    consider "n < 8" | "8 \<le> n" "n < 16" | "16 \<le> n" "n < 24" | "24 \<le> n"
      by linarith
    then show ?thesis
      using n by cases (auto simp: bit_simps)
  qed
qed

lemma load_store_same:
  "off + 4 \<le> 0x1000 \<Longrightarrow> load32 (store32 a off v) off = Inr v"
  by (simp add: load32_def store32_def bytes_le32)

lemma load_store_other:
  "off' + 4 \<le> off \<or> off + 4 \<le> off' \<Longrightarrow> load32 (store32 a off' v) off = load32 a off"
  by (auto simp: load32_def store32_def)

subsection \<open>Offsets within the cache\<close>

text \<open>The masks of the two cache functions, as arithmetic on the address.\<close>

lemma unat_and_mask: "unat ((x :: u32) AND mask k) = unat x mod 2 ^ k"
proof -
  have "unat (x AND mask k) = unat (take_bit k x)" by (simp only: take_bit_eq_mask)
  also have "\<dots> = take_bit k (unat x)" by (rule unsigned_take_bit_eq)
  also have "\<dots> = unat x mod 2 ^ k" by (rule take_bit_eq_mod)
  finally show ?thesis .
qed

lemma unat_slice: "k + 4 \<le> 32 \<Longrightarrow>
   unat ((x :: u32) AND mask (k + 4) AND NOT (mask 4)) = 16 * (unat x div 16 mod 2 ^ k)"
proof -
  assume k: "k + 4 \<le> 32"
  have "unat (x AND mask (k + 4) AND NOT (mask 4)) = unat (push_bit 4 (take_bit k (drop_bit 4 x)))"
    by (simp only: slice_eq_mask)
  also have "\<dots> = take_bit 32 (push_bit 4 (take_bit k (drop_bit 4 (unat x))))"
    by (simp add: unsigned_push_bit_eq unsigned_take_bit_eq unat_drop_bit_eq)
  also have "\<dots> = (16 * (unat x div 16 mod 2 ^ k)) mod 2 ^ 32"
    by (simp add: push_bit_eq_mult take_bit_eq_mod drop_bit_eq_div mult.commute)
  also have "\<dots> = 16 * (unat x div 16 mod 2 ^ k)"
  proof -
    have "unat x div 16 mod 2 ^ k < 2 ^ k" by simp
    also have "(2::nat) ^ k \<le> 2 ^ 28" using k by (intro power_increasing) auto
    finally show ?thesis by simp
  qed
  finally show ?thesis .
qed

lemma and_fff: "unat ((x :: u32) AND 0xfff) = unat x mod 4096"
  using unat_and_mask [of x 12] by (simp add: mask_eq_exp_minus_1)

lemma and_ffffff: "unat ((x :: u32) AND 0xffffff) = unat x mod 16777216"
  using unat_and_mask [of x 24] by (simp add: mask_eq_exp_minus_1)

lemma and_3: "unat ((x :: u32) AND 3) = unat x mod 4"
  using unat_and_mask [of x 2] by (simp add: mask_eq_exp_minus_1)

lemma line_base: "unat (((x :: u32) AND 0xfff) AND NOT 0xf) = 16 * (unat x div 16 mod 256)"
  using unat_slice [of 8 x] by (simp add: mask_eq_exp_minus_1 and.assoc)

lemma line_tag: "unat (((x :: u32) AND 0xffffff) AND NOT 0xf) = 16 * (unat x div 16 mod 1048576)"
  using unat_slice [of 20 x] by (simp add: mask_eq_exp_minus_1 and.assoc)

lemma line_addr: "unat ((x :: u32) AND NOT 0xf) = 16 * (unat x div 16)"
proof -
  have "take_bit LENGTH(32) x = x" by (rule take_bit_length_eq)
  then have m: "x AND mask (28 + 4) = x" by (simp add: take_bit_eq_mask [symmetric])
  have "unat ((x AND mask (28 + 4)) AND NOT (mask 4)) = 16 * (unat x div 16 mod 2 ^ 28)"
    unfolding and.assoc by (rule unat_slice) simp
  then have "unat (x AND NOT (mask 4)) = 16 * (unat x div 16 mod 2 ^ 28)"
    by (simp only: m)
  then show ?thesis
    using unsigned_less [of x, where 'a = nat] by (simp add: mask_eq_exp_minus_1)
qed

subsection \<open>Miss, hit and bypass\<close>

lemma all_less_4: "(\<forall>k<4::nat. P k) \<longleftrightarrow> P 0 \<and> P 1 \<and> P 2 \<and> P 3"
proof -
  have "k < 4 \<longleftrightarrow> k = 0 \<or> k = 1 \<or> k = 2 \<or> k = 3" for k :: nat by arith
  then show ?thesis by auto
qed

lemma instrReads_read32: "instrReads (snd (read32 rd mem a)) = instrReads mem @ [a]"
  by (simp add: read32_def split: prod.splits)

lemma line_base_le: "unat (((x :: u32) AND 0xfff) AND NOT 0xf) \<le> 4080"
proof -
  have "unat x div 16 mod 256 \<le> 255" by simp
  then show ?thesis unfolding line_base by simp
qed

lemma readICache_miss:
  assumes "cacheable a"
    and "load32 (iCacheAddr (m_regs s)) (unat (a AND 0xfff)) = Inr tag"
    and "tag \<noteq> a AND 0xffffff"
  shows "readICache rd s mem a =
     (let cb = unat ((a AND 0xfff) AND NOT 0xf);
          ob = (a AND 0xffffff) AND NOT 0xf;
          ab = a AND NOT 0xf;
          r0 = read32 rd mem ab;
          r1 = read32 rd (snd r0) (ab + 4);
          r2 = read32 rd (snd r1) (ab + 8);
          r3 = read32 rd (snd r2) (ab + 0xc);
          r = read32 rd (snd r3) a
      in Inr (fst r,
              s\<lparr>m_regs := (m_regs s)
                 \<lparr>iCacheAddr := store32 (store32 (store32 (store32 (iCacheAddr (m_regs s))
                                    cb ob) (cb + 4) (ob + 4)) (cb + 8) (ob + 8)) (cb + 0xc) (ob + 0xc),
                  iCacheCode := store32 (store32 (store32 (store32 (iCacheCode (m_regs s))
                                    cb (fst r0)) (cb + 4) (fst r1)) (cb + 8) (fst r2)) (cb + 0xc) (fst r3)\<rparr>\<rparr>,
              snd r))"
  using assms by (simp add: readICache_def cacheable_def Let_def)

lemma readICache_hit:
  assumes "cacheable a"
    and "load32 (iCacheAddr (m_regs s)) (unat (a AND 0xfff)) = Inr (a AND 0xffffff)"
    and "load32 (iCacheCode (m_regs s)) (unat (a AND 0xfff)) = Inr w"
  shows "readICache rd s mem a = Inr (w, s, mem)"
  using assms by (simp add: readICache_def cacheable_def Let_def)

lemma readICache_uncached:
  assumes "\<not> cacheable a"
  shows "readICache rd s mem a = Inr (fst (read32 rd mem a), s, snd (read32 rd mem a))"
  using assms by (simp add: readICache_def cacheable_def Let_def)

lemma cacheable_example: "cacheable 0x80000004"
  by (simp add: cacheable_def drop_bit_eq_div)

lemma cpu0_tag: "load32 (iCacheAddr (m_regs cpu0)) (unat (0x80000004 AND 0xfff :: u32)) = Inr 0xffffffff"
  by (simp add: cpu0_def load32_def)

lemma read32s_5:
  "read32s rd mem [a0, a1, a2, a3, a4] =
     (let r0 = read32 rd mem a0;
          r1 = read32 rd (snd r0) a1;
          r2 = read32 rd (snd r1) a2;
          r3 = read32 rd (snd r2) a3;
          r4 = read32 rd (snd r3) a4
      in ([fst r0, fst r1, fst r2, fst r3, fst r4], snd r4))"
  by (simp add: Let_def split: prod.splits)

lemma fill_loads:
  assumes "cb \<le> 4080"
  shows "load32 (store32 (store32 (store32 (store32 A cb v0) (cb + 4) v1) (cb + 8) v2) (cb + 0xc) v3) cb = Inr v0"
    and "load32 (store32 (store32 (store32 (store32 A cb v0) (cb + 4) v1) (cb + 8) v2) (cb + 0xc) v3) (cb + 4) = Inr v1"
    and "load32 (store32 (store32 (store32 (store32 A cb v0) (cb + 4) v1) (cb + 8) v2) (cb + 0xc) v3) (cb + 8) = Inr v2"
    and "load32 (store32 (store32 (store32 (store32 A cb v0) (cb + 4) v1) (cb + 8) v2) (cb + 0xc) v3) (cb + 0xc) = Inr v3"
  using assms by (simp_all add: load_store_same load_store_other)

lemma miss_fill:
  assumes "cacheable a"
    and "load32 (iCacheAddr (m_regs s)) (unat (a AND 0xfff)) = Inr tag"
    and "tag \<noteq> a AND 0xffffff"
  shows "\<exists>ws s' mem'.
      read32s rd mem [a AND NOT 0xf, (a AND NOT 0xf) + 4, (a AND NOT 0xf) + 8,
                      (a AND NOT 0xf) + 0xc, a] = (ws, mem')
    \<and> readICache rd s mem a = Inr (ws ! 4, s', mem')
    \<and> instrReads mem' = instrReads mem @ [a AND NOT 0xf, (a AND NOT 0xf) + 4,
                      (a AND NOT 0xf) + 8, (a AND NOT 0xf) + 0xc, a]
    \<and> (\<forall>k<4. load32 (iCacheAddr (m_regs s')) (unat ((a AND 0xfff) AND NOT 0xf) + 4 * k)
                 = Inr (((a AND 0xffffff) AND NOT 0xf) + 4 * of_nat k)
             \<and> load32 (iCacheCode (m_regs s')) (unat ((a AND 0xfff) AND NOT 0xf) + 4 * k)
                 = Inr (ws ! k))"
proof -
  define cb where "cb = unat ((a AND 0xfff) AND NOT 0xf)"
  have cb: "cb \<le> 4080" unfolding cb_def by (rule line_base_le)
  show ?thesis
    unfolding readICache_miss [OF assms] read32s_5 all_less_4 Let_def cb_def [symmetric]
    by (simp add: instrReads_read32 fill_loads [OF cb])
qed

text \<open>
  Claim C1, as the code has it. A fetch of a cacheable address whose tag does not match
  fills the four words of the containing line, tags and instruction words, with one
  instruction-typed read per word, at the line's address plus 0, 4, 8 and 12 in that order;
  it then falls through to the default path, which issues a fifth instruction-typed read
  at the requested address and returns what that read gives. The hypothesis that the tag
  load returns excludes only the three unaligned offsets at the end of the tag array.
\<close>

theorem icache_miss_fills_line_then_reads_pc:
  assumes "cacheable a"
    and "load32 (iCacheAddr (m_regs s)) (unat (a AND 0xfff)) = Inr tag"
    and "tag \<noteq> a AND 0xffffff"
  shows "\<exists>ws s' mem'.
      read32s rd mem [a AND NOT 0xf, (a AND NOT 0xf) + 4, (a AND NOT 0xf) + 8,
                      (a AND NOT 0xf) + 0xc, a] = (ws, mem')
    \<and> readICache rd s mem a = Inr (ws ! 4, s', mem')
    \<and> instrReads mem' = instrReads mem @ [a AND NOT 0xf, (a AND NOT 0xf) + 4,
                      (a AND NOT 0xf) + 8, (a AND NOT 0xf) + 0xc, a]
    \<and> (\<forall>k<4. load32 (iCacheAddr (m_regs s')) (unat ((a AND 0xfff) AND NOT 0xf) + 4 * k)
                 = Inr (((a AND 0xffffff) AND NOT 0xf) + 4 * of_nat k)
             \<and> load32 (iCacheCode (m_regs s')) (unat ((a AND 0xfff) AND NOT 0xf) + 4 * k)
                 = Inr (ws ! k))"
  using assms by (rule miss_fill)

theorem icache_miss_fills_line_then_reads_pc_witness:
  "\<exists>ws s' mem'.
      readICache ram_read cpu0 mem0 0x80000004 = Inr (ws ! 4, s', mem')
    \<and> instrReads mem' = [0x80000000, 0x80000004, 0x80000008, 0x8000000c, 0x80000004]
    \<and> load32 (iCacheAddr (m_regs s')) 4 = Inr 4
    \<and> load32 (iCacheCode (m_regs s')) 4 = Inr (ws ! 1)"
proof -
  have ne: "(0xffffffff :: u32) \<noteq> 0x80000004 AND 0xffffff" by simp
  from icache_miss_fills_line_then_reads_pc [OF cacheable_example cpu0_tag ne, of ram_read mem0]
  obtain ws s' mem' where
    "readICache ram_read cpu0 mem0 0x80000004 = Inr (ws ! 4, s', mem')"
    "instrReads mem' = instrReads mem0 @ [0x80000004 AND NOT 0xf, (0x80000004 AND NOT 0xf) + 4,
                      (0x80000004 AND NOT 0xf) + 8, (0x80000004 AND NOT 0xf) + 0xc, 0x80000004]"
    "\<forall>k<4. load32 (iCacheAddr (m_regs s')) (unat ((0x80000004 AND 0xfff :: u32) AND NOT 0xf) + 4 * k)
                 = Inr (((0x80000004 AND 0xffffff) AND NOT 0xf) + 4 * of_nat k)
             \<and> load32 (iCacheCode (m_regs s')) (unat ((0x80000004 AND 0xfff :: u32) AND NOT 0xf) + 4 * k)
                 = Inr (ws ! k)"
    by blast
  then show ?thesis
    by (auto simp: mem0_def all_less_4)
qed

text \<open>
  Claim C1 as stated (four reads in all, no address read again) fails: on an invalidated
  cache the fetch of \<^verbatim>\<open>0x80000000\<close> issues five reads, the last one at the address that
  the first one has just made resident.
\<close>

theorem icache_miss_reads_five_counterexample:
  "reads_after (readICache ram_read cpu0 mem0 0x80000000)
     = Some [0x80000000, 0x80000004, 0x80000008, 0x8000000c, 0x80000000]"
  by (simp add: reads_after_def readICache_def read32_def ram_read_def cpu0_def mem0_def
        load32_def Let_def drop_bit_eq_div)

subsection \<open>Word-aligned addresses\<close>

text \<open>
  A word-aligned address is its line's address plus 0, 4, 8 or 12, and so are its offset in
  the cache arrays and its tag.
\<close>

lemma aligned_mod: "(a :: u32) AND 3 = 0 \<Longrightarrow> unat a mod 4 = 0"
  using and_3 [of a] by simp

lemma of_nat_unat_u32: "(of_nat (unat (x :: u32)) :: u32) = x"
  by simp

lemma mod_16_split: "(n :: nat) mod (16 * q) = 16 * (n div 16 mod q) + n mod 16"
  by (rule mod_mult2_eq)

lemma aligned_cases:
  fixes a :: u32
  assumes "a AND 3 = 0"
  shows "\<exists>j<4. unat (a AND 0xfff) = unat ((a AND 0xfff) AND NOT 0xf) + 4 * j
             \<and> a AND 0xffffff = ((a AND 0xffffff) AND NOT 0xf) + 4 * of_nat j
             \<and> a = (a AND NOT 0xf) + 4 * of_nat j"
proof -
  define n where "n = unat a"
  define j where "j = n mod 16 div 4"
  have n4: "n mod 4 = 0" unfolding n_def using assms by (rule aligned_mod)
  have j: "j < 4" unfolding j_def by arith
  have lo: "n mod 16 = 4 * j" unfolding j_def using n4 by presburger
  have 1: "n mod 4096 = 16 * (n div 16 mod 256) + 4 * j"
    using mod_16_split [of n 256] lo by simp
  have 2: "n mod 16777216 = 16 * (n div 16 mod 1048576) + 4 * j"
    using mod_16_split [of n 1048576] lo by simp
  have 3: "n = 16 * (n div 16) + 4 * j"
    using mult_div_mod_eq [of 16 n] lo by simp
  have A: "unat (a AND 0xfff) = unat ((a AND 0xfff) AND NOT 0xf) + 4 * j"
    unfolding and_fff line_base n_def [symmetric] by (rule 1)
  have "unat (a AND 0xffffff) = unat ((a AND 0xffffff) AND NOT 0xf) + 4 * j"
    unfolding and_ffffff line_tag n_def [symmetric] by (rule 2)
  then have "(of_nat (unat (a AND 0xffffff)) :: u32)
               = of_nat (unat ((a AND 0xffffff) AND NOT 0xf) + 4 * j)"
    by (rule arg_cong)
  then have B: "a AND 0xffffff = ((a AND 0xffffff) AND NOT 0xf) + 4 * of_nat j"
    unfolding of_nat_add of_nat_mult of_nat_unat_u32 by simp
  have "unat a = unat (a AND NOT 0xf) + 4 * j"
    unfolding line_addr n_def [symmetric] by (rule 3)
  then have "(of_nat (unat a) :: u32) = of_nat (unat (a AND NOT 0xf) + 4 * j)"
    by (rule arg_cong)
  then have C: "a = (a AND NOT 0xf) + 4 * of_nat j"
    unfolding of_nat_add of_nat_mult of_nat_unat_u32 by simp
  from j A B C show ?thesis by blast
qed

lemma aligned_in_bounds: "(a :: u32) AND 3 = 0 \<Longrightarrow> unat (a AND 0xfff) + 4 \<le> 0x1000"
proof -
  assume "a AND 3 = 0"
  then obtain j where "j < 4" "unat (a AND 0xfff) = unat ((a AND 0xfff) AND NOT 0xf) + 4 * j"
    using aligned_cases by blast
  then show ?thesis using line_base_le [of a] by simp
qed

lemma sentinel_never_matches: "(a :: u32) AND 3 = 0 \<Longrightarrow> a AND 0xffffff \<noteq> 0xff"
proof
  assume al: "a AND 3 = 0" and eq: "a AND 0xffffff = 0xff"
  have "unat (a AND 0xffffff) = unat a mod 16777216" by (rule and_ffffff)
  then have "unat a mod 16777216 = 255" using eq by simp
  then have "unat a mod 16777216 mod 4 = 3" by simp
  moreover have "unat a mod 16777216 mod 4 = unat a mod 4"
    by (rule mod_mod_cancel) simp
  moreover have "unat a mod 4 = 0" using al by (rule aligned_mod)
  ultimately show False by simp
qed

subsection \<open>Fetching again\<close>

lemma read32_fst: "fst (read32 rd mem a) = fst (rd (contents mem) a)"
  by (simp add: read32_def split: prod.splits)

lemma read32_contents: "contents (snd (read32 rd mem a)) = snd (rd (contents mem) a)"
  by (simp add: read32_def split: prod.splits)

lemma read32s_Cons:
  "read32s rd mem (a # as) =
     (fst (read32 rd mem a) # fst (read32s rd (snd (read32 rd mem a)) as),
      snd (read32s rd (snd (read32 rd mem a)) as))"
  by (simp add: case_prod_beta)

lemma read32s_repeatable:
  assumes "\<And>m a b. fst (rd (snd (rd m b)) a) = fst (rd m a)"
  shows "i < length as \<Longrightarrow> fst (read32s rd mem as) ! i = fst (rd (contents mem) (as ! i))"
proof (induction as arbitrary: mem i)
  case Nil
  then show ?case by simp
next
  case (Cons b bs)
  show ?case
  proof (cases i)
    case 0
    then show ?thesis by (simp add: read32s_Cons read32_fst del: read32s.simps)
  next
    case (Suc i')
    then have "i' < length bs" using Cons.prems by simp
    then have "fst (read32s rd (snd (read32 rd mem b)) bs) ! i'
                 = fst (rd (contents (snd (read32 rd mem b))) (bs ! i'))"
      by (rule Cons.IH)
    then show ?thesis
      using Suc by (simp add: read32s_Cons read32_contents assms del: read32s.simps)
  qed
qed

text \<open>
  A fetch that bypasses the cache, or whose line is another one, leaves the tag and the word
  the cache holds for a word-aligned address.
\<close>

lemma line_base_dvd16: "16 dvd unat (((a :: u32) AND 0xfff) AND NOT 0xf)"
  unfolding line_base by simp

lemma fill_elsewhere:
  assumes "16 dvd cb" and "16 dvd cb'" and "cb \<noteq> cb'" and "j < 4"
  shows "load32 (store32 (store32 (store32 (store32 A cb v0) (cb + 4) v1) (cb + 8) v2)
           (cb + 0xc) v3) (cb' + 4 * j) = load32 A (cb' + 4 * j)"
proof -
  have "cb + 16 \<le> cb' \<or> cb' + 16 \<le> cb"
    using assms(1-3) by (auto simp: dvd_def)
  then show ?thesis
    using assms(4) by (elim disjE) (simp_all add: load_store_other)
qed

lemma miss_shape:
  assumes "cacheable b"
    and "load32 (iCacheAddr (m_regs s)) (unat (b AND 0xfff)) = Inr tag"
    and "tag \<noteq> b AND 0xffffff"
    and "cb = unat ((b AND 0xfff) AND NOT 0xf)"
  shows "\<exists>w mem' v0 v1 v2 v3 u0 u1 u2 u3.
      readICache rd s mem b =
        Inr (w, s\<lparr>m_regs := (m_regs s)
                 \<lparr>iCacheAddr := store32 (store32 (store32 (store32 (iCacheAddr (m_regs s))
                                  cb v0) (cb + 4) v1) (cb + 8) v2) (cb + 0xc) v3,
                  iCacheCode := store32 (store32 (store32 (store32 (iCacheCode (m_regs s))
                                  cb u0) (cb + 4) u1) (cb + 8) u2) (cb + 0xc) u3\<rparr>\<rparr>, mem')"
  unfolding readICache_miss [OF assms(1-3)] Let_def assms(4) [symmetric] by blast

lemma fetch_elsewhere_keeps_slot:
  fixes a b :: u32
  assumes "readICache rd s mem b = Inr (w, s', mem')"
    and "\<not> cacheable b \<or> unat ((b AND 0xfff) AND NOT 0xf) \<noteq> unat ((a AND 0xfff) AND NOT 0xf)"
    and "a AND 3 = 0"
  shows "load32 (iCacheAddr (m_regs s')) (unat (a AND 0xfff))
           = load32 (iCacheAddr (m_regs s)) (unat (a AND 0xfff))
       \<and> load32 (iCacheCode (m_regs s')) (unat (a AND 0xfff))
           = load32 (iCacheCode (m_regs s)) (unat (a AND 0xfff))"
proof (cases "cacheable b")
  case False
  then show ?thesis using assms(1) by (simp add: readICache_uncached)
next
  case True
  then have other: "unat ((b AND 0xfff) AND NOT 0xf) \<noteq> unat ((a AND 0xfff) AND NOT 0xf)"
    using assms(2) by simp
  obtain j where j: "j < 4"
    and ja: "unat (a AND 0xfff) = unat ((a AND 0xfff) AND NOT 0xf) + 4 * j"
    using aligned_cases [OF assms(3)] by blast
  show ?thesis
  proof (cases "load32 (iCacheAddr (m_regs s)) (unat (b AND 0xfff))")
    case (Inl e)
    then show ?thesis
      using assms(1) True by (simp add: readICache_def cacheable_def Let_def)
  next
    case (Inr tag)
    show ?thesis
    proof (cases "tag = b AND 0xffffff")
      case hit: True
      then have "s' = s"
        using assms(1) True Inr
        by (auto simp: readICache_def cacheable_def Let_def split: sum.splits)
      then show ?thesis by simp
    next
      case miss: False
      define cb where "cb = unat ((b AND 0xfff) AND NOT 0xf)"
      define ca where "ca = unat ((a AND 0xfff) AND NOT 0xf)"
      have d: "16 dvd cb" "16 dvd ca" "cb \<noteq> ca"
        using other unfolding cb_def ca_def by (simp_all only: line_base_dvd16 not_False_eq_True)
      obtain w0 m0 v0 v1 v2 v3 u0 u1 u2 u3 where
        "readICache rd s mem b =
           Inr (w0, s\<lparr>m_regs := (m_regs s)
                 \<lparr>iCacheAddr := store32 (store32 (store32 (store32 (iCacheAddr (m_regs s))
                                  cb v0) (cb + 4) v1) (cb + 8) v2) (cb + 0xc) v3,
                  iCacheCode := store32 (store32 (store32 (store32 (iCacheCode (m_regs s))
                                  cb u0) (cb + 4) u1) (cb + 8) u2) (cb + 0xc) u3\<rparr>\<rparr>, m0)"
        using miss_shape [OF True Inr miss cb_def, of rd mem] by blast
      then have
        "iCacheAddr (m_regs s') = store32 (store32 (store32 (store32 (iCacheAddr (m_regs s))
                                  cb v0) (cb + 4) v1) (cb + 8) v2) (cb + 0xc) v3"
        "iCacheCode (m_regs s') = store32 (store32 (store32 (store32 (iCacheCode (m_regs s))
                                  cb u0) (cb + 4) u1) (cb + 8) u2) (cb + 0xc) u3"
        using assms(1) by auto
      then show ?thesis
        unfolding ja ca_def [symmetric] by (simp only: fill_elsewhere [OF d j] simp_thms)
    qed
  qed
qed

text \<open>A fetch of a word-aligned address always returns.\<close>

lemma fetch_aligned_returns:
  fixes a :: u32
  assumes "a AND 3 = 0"
  shows "\<exists>w s' mem'. readICache rd s mem a = Inr (w, s', mem')"
proof (cases "cacheable a")
  case False
  then show ?thesis by (simp add: readICache_uncached)
next
  case True
  have "unat (a AND 0xfff) + 4 \<le> 0x1000"
    using assms by (rule aligned_in_bounds)
  then obtain tag w where tag: "load32 (iCacheAddr (m_regs s)) (unat (a AND 0xfff)) = Inr tag"
    and w: "load32 (iCacheCode (m_regs s)) (unat (a AND 0xfff)) = Inr w"
    by (simp add: load32_def)
  show ?thesis
  proof (cases "tag = a AND 0xffffff")
    case hit: True
    then show ?thesis using True tag w by (simp add: readICache_hit)
  next
    case miss: False
    then show ?thesis using miss_fill [OF True tag miss, of rd mem] by blast
  qed
qed

text \<open>
  Claim C7, as the code has it. After a fetch of a cacheable, word-aligned address has
  returned \<open>W\<close>, a later fetch of that address, in any state where the cache still holds
  the tag and the word that the first fetch left for it, returns without a memory read and
  without changing the processor; the word it returns is \<open>W\<close> when a read of the memory
  does not change what a later read returns.
\<close>

theorem icache_second_fetch_hits:
  assumes "cacheable a" and "a AND 3 = 0"
    and "readICache rd s mem a = Inr (W, s1, mem1)"
    and "load32 (iCacheAddr (m_regs s2)) (unat (a AND 0xfff))
           = load32 (iCacheAddr (m_regs s1)) (unat (a AND 0xfff))"
    and "load32 (iCacheCode (m_regs s2)) (unat (a AND 0xfff))
           = load32 (iCacheCode (m_regs s1)) (unat (a AND 0xfff))"
  shows "(\<exists>W'. readICache rd s2 mem2 a = Inr (W', s2, mem2))
       \<and> ((\<forall>m x y. fst (rd (snd (rd m y)) x) = fst (rd m x))
            \<longrightarrow> readICache rd s2 mem2 a = Inr (W, s2, mem2))"
proof -
  have "unat (a AND 0xfff) + 4 \<le> 0x1000"
    using assms(2) by (rule aligned_in_bounds)
  then obtain tag where tag: "load32 (iCacheAddr (m_regs s)) (unat (a AND 0xfff)) = Inr tag"
    and "\<exists>w. load32 (iCacheCode (m_regs s)) (unat (a AND 0xfff)) = Inr w"
    by (simp add: load32_def)
  then obtain w where w: "load32 (iCacheCode (m_regs s)) (unat (a AND 0xfff)) = Inr w"
    by blast
  show ?thesis
  proof (cases "tag = a AND 0xffffff")
    case True
    then have "readICache rd s mem a = Inr (w, s, mem)"
      using assms(1) tag w by (simp add: readICache_hit)
    then have "W = w" "s1 = s" using assms(3) by simp_all
    then have "readICache rd s2 mem2 a = Inr (W, s2, mem2)"
      using assms(1,4,5) tag w True by (simp add: readICache_hit)
    then show ?thesis by simp
  next
    case False
    obtain ws s' mem' where
      rs: "read32s rd mem [a AND NOT 0xf, (a AND NOT 0xf) + 4, (a AND NOT 0xf) + 8,
                      (a AND NOT 0xf) + 0xc, a] = (ws, mem')"
      and res: "readICache rd s mem a = Inr (ws ! 4, s', mem')"
      and lines: "\<forall>k<4. load32 (iCacheAddr (m_regs s')) (unat ((a AND 0xfff) AND NOT 0xf) + 4 * k)
                 = Inr (((a AND 0xffffff) AND NOT 0xf) + 4 * of_nat k)
             \<and> load32 (iCacheCode (m_regs s')) (unat ((a AND 0xfff) AND NOT 0xf) + 4 * k)
                 = Inr (ws ! k)"
      using miss_fill [OF assms(1) tag False, of rd mem] by blast
    obtain j where j: "j < 4"
      and ja: "unat (a AND 0xfff) = unat ((a AND 0xfff) AND NOT 0xf) + 4 * j"
      and jo: "a AND 0xffffff = ((a AND 0xffffff) AND NOT 0xf) + 4 * of_nat j"
      and jp: "a = (a AND NOT 0xf) + 4 * of_nat j"
      using aligned_cases [OF assms(2)] by blast
    have eqs: "W = ws ! 4" "s1 = s'" "mem1 = mem'"
      using res assms(3) by simp_all
    have "load32 (iCacheAddr (m_regs s')) (unat (a AND 0xfff)) = Inr (a AND 0xffffff)"
      and "load32 (iCacheCode (m_regs s')) (unat (a AND 0xfff)) = Inr (ws ! j)"
      using lines j ja jo by simp_all
    then have second: "readICache rd s2 mem2 a = Inr (ws ! j, s2, mem2)"
      using assms(1,4,5) by (simp add: readICache_hit eqs)
    have "ws ! j = ws ! 4" if rep: "\<forall>m x y. fst (rd (snd (rd m y)) x) = fst (rd m x)"
    proof -
      let ?as = "[a AND NOT 0xf, (a AND NOT 0xf) + 4, (a AND NOT 0xf) + 8, (a AND NOT 0xf) + 0xc, a]"
      have at: "?as ! j = a"
      proof -
        have "j = 0 \<or> j = 1 \<or> j = 2 \<or> j = 3" using j by arith
        then show ?thesis using jp by auto
      qed
      have "ws ! j = fst (rd (contents mem) (?as ! j))"
        using read32s_repeatable [of rd j ?as mem] rep j rs by simp
      moreover have "ws ! 4 = fst (rd (contents mem) (?as ! 4))"
        using read32s_repeatable [of rd 4 ?as mem] rep rs by simp
      ultimately show ?thesis using at by simp
    qed
    then show ?thesis using second eqs by auto
  qed
qed

theorem icache_second_fetch_hits_witness:
  "\<exists>W s1 mem1 w2 s2 mem2.
      readICache ram_read cpu0 mem0 0x80000004 = Inr (W, s1, mem1)
    \<and> readICache ram_read s1 mem1 0x80000010 = Inr (w2, s2, mem2)
    \<and> readICache ram_read s2 mem2 0x80000004 = Inr (W, s2, mem2)"
proof -
  have ne: "(0xffffffff :: u32) \<noteq> 0x80000004 AND 0xffffff" by simp
  obtain ws s1 mem1 where
    first: "readICache ram_read cpu0 mem0 0x80000004 = Inr (ws ! 4, s1, mem1)"
    using miss_fill [OF cacheable_example cpu0_tag ne, of ram_read mem0] by blast
  have al: "(0x80000004 :: u32) AND 3 = 0" and al2: "(0x80000010 :: u32) AND 3 = 0" by simp_all
  obtain w2 s2 mem2 where
    other: "readICache ram_read s1 mem1 0x80000010 = Inr (w2, s2, mem2)"
    using fetch_aligned_returns [OF al2, of ram_read s1 mem1] by blast
  have lines: "\<not> cacheable 0x80000010
      \<or> unat (((0x80000010 :: u32) AND 0xfff) AND NOT 0xf) \<noteq> unat (((0x80000004 :: u32) AND 0xfff) AND NOT 0xf)"
    by simp
  have kept: "load32 (iCacheAddr (m_regs s2)) (unat (0x80000004 AND 0xfff :: u32))
                = load32 (iCacheAddr (m_regs s1)) (unat (0x80000004 AND 0xfff :: u32))"
    "load32 (iCacheCode (m_regs s2)) (unat (0x80000004 AND 0xfff :: u32))
                = load32 (iCacheCode (m_regs s1)) (unat (0x80000004 AND 0xfff :: u32))"
    using fetch_elsewhere_keeps_slot [OF other lines al] by simp_all
  have rep: "\<forall>m x y. fst (ram_read (snd (ram_read m y)) x) = fst (ram_read m x)"
    by (simp add: ram_read_def)
  from icache_second_fetch_hits [OF cacheable_example al first kept, of mem2] rep first other
  show ?thesis by blast
qed

text \<open>
  Claim C7 as stated ("for every address") fails outside the two cached banks: the second
  of two consecutive fetches of \<^verbatim>\<open>0xbfc00000\<close> issues a second memory read.
\<close>

theorem uncached_fetch_reads_twice_counterexample:
  "readICache ram_read cpu0 mem0 0xbfc00000
     = Inr (0xbfc00000, cpu0, mem0\<lparr>instrReads := [0xbfc00000]\<rparr>)
   \<and> readICache ram_read cpu0 (mem0\<lparr>instrReads := [0xbfc00000]\<rparr>) 0xbfc00000
     = Inr (0xbfc00000, cpu0, mem0\<lparr>instrReads := [0xbfc00000, 0xbfc00000]\<rparr>)"
  by (simp add: readICache_def read32_def ram_read_def mem0_def Let_def drop_bit_eq_div)

subsection \<open>Invalidation\<close>

text \<open>
  An invalidated tag word stays invalidated through every later \<^verbatim>\<open>flushICacheLine\<close>, of
  the same line or of another.
\<close>

lemma tag_invalid_load: "off + 4 \<le> 0x1000 \<Longrightarrow> tag_invalid A off \<Longrightarrow> load32 A off = Inr 0xff"
  by (simp add: tag_invalid_def load32_def)

lemma store_ff_sets: "tag_invalid (store32 A off 0xff) off"
  by (simp add: tag_invalid_def store32_def)

lemma store_ff_keeps:
  assumes "4 dvd off" and "4 dvd off'" and "tag_invalid A off"
  shows "tag_invalid (store32 A off' 0xff) off"
proof (cases "off' = off")
  case True
  then show ?thesis by (simp add: store_ff_sets)
next
  case False
  then have "off' + 4 \<le> off \<or> off + 4 \<le> off'"
    using assms(1,2) by (auto simp: dvd_def)
  then show ?thesis
    using assms(3) by (auto simp: tag_invalid_def store32_def)
qed

lemma flush_iCacheAddr:
  "cacheable a \<Longrightarrow> iCacheAddr (m_regs (flushICacheLine s a)) =
     (let cb = unat ((a AND 0xfff) AND NOT 0xf)
      in store32 (store32 (store32 (store32 (iCacheAddr (m_regs s)) cb 0xff) (cb + 4) 0xff)
           (cb + 8) 0xff) (cb + 0xc) 0xff)"
  by (simp add: flushICacheLine_def cacheable_def Let_def)

lemma flush_uncached: "\<not> cacheable a \<Longrightarrow> flushICacheLine s a = s"
  by (simp add: flushICacheLine_def cacheable_def Let_def)

lemma line_base_dvd: "4 dvd unat (((a :: u32) AND 0xfff) AND NOT 0xf)"
  unfolding line_base by simp

lemma flush_keeps:
  assumes "4 dvd off" and "tag_invalid (iCacheAddr (m_regs s)) off"
  shows "tag_invalid (iCacheAddr (m_regs (flushICacheLine s a))) off"
proof (cases "cacheable a")
  case True
  show ?thesis
    unfolding flush_iCacheAddr [OF True] Let_def
    using assms line_base_dvd [of a] by (intro store_ff_keeps) simp_all
next
  case False
  then show ?thesis using assms(2) by (simp add: flush_uncached)
qed

lemma read32s_length: "length (fst (read32s rd mem as)) = length as"
  by (induction as arbitrary: mem) (simp_all add: read32s_Cons del: read32s.simps(2))

lemma fill_ff_sets:
  assumes "j < 4"
  shows "tag_invalid (store32 (store32 (store32 (store32 A cb 0xff) (cb + 4) 0xff)
           (cb + 8) 0xff) (cb + 0xc) 0xff) (cb + 4 * j)"
proof -
  have "j = 0 \<or> j = 1 \<or> j = 2 \<or> j = 3" using assms by arith
  then show ?thesis by (auto simp: tag_invalid_def store32_def)
qed

lemma flush_sets:
  assumes "cacheable a" and "a AND 3 = 0"
  shows "tag_invalid (iCacheAddr (m_regs (flushICacheLine s a))) (unat (a AND 0xfff))"
proof -
  define cb where "cb = unat ((a AND 0xfff) AND NOT 0xf)"
  obtain j where j: "j < 4" and ja: "unat (a AND 0xfff) = cb + 4 * j"
    using aligned_cases [OF assms(2)] unfolding cb_def by blast
  show ?thesis
    unfolding flush_iCacheAddr [OF assms(1)] Let_def cb_def [symmetric] ja
    using j by (rule fill_ff_sets)
qed

lemma foldl_flush_keeps:
  assumes "4 dvd off"
  shows "tag_invalid (iCacheAddr (m_regs s)) off \<Longrightarrow>
     tag_invalid (iCacheAddr (m_regs (foldl (\<lambda>s k. flushICacheLine s (f k)) s ks))) off"
  by (induction ks arbitrary: s) (simp_all add: flush_keeps [OF assms])

lemma aligned_dvd: "(a :: u32) AND 3 = 0 \<Longrightarrow> 4 dvd unat (a AND 0xfff)"
proof -
  assume "a AND 3 = 0"
  then obtain j where "unat (a AND 0xfff) = unat ((a AND 0xfff) AND NOT 0xf) + 4 * j"
    using aligned_cases by blast
  then show ?thesis using line_base_dvd [of a] by simp
qed

lemma foldl_flush_sets:
  assumes "cacheable (f k)" and "f k AND 3 = 0"
  shows "k \<in> set ks \<Longrightarrow>
     tag_invalid (iCacheAddr (m_regs (foldl (\<lambda>s k. flushICacheLine s (f k)) s ks)))
       (unat (f k AND 0xfff))"
proof (induction ks arbitrary: s)
  case Nil
  then show ?case by simp
next
  case (Cons x xs)
  show ?case
  proof (cases "x = k")
    case True
    have "tag_invalid (iCacheAddr (m_regs (flushICacheLine s (f k)))) (unat (f k AND 0xfff))"
      using assms by (rule flush_sets)
    then show ?thesis
      using True foldl_flush_keeps [OF aligned_dvd [OF assms(2)]] by simp
  next
    case False
    then have "k \<in> set xs" using Cons.prems by simp
    then show ?thesis using Cons.IH by simp
  qed
qed

lemma Clear_invalidates:
  assumes "k < unat Size" and "cacheable (Addr + of_nat k)" and "(Addr + of_nat k) AND 3 = 0"
  shows "load32 (iCacheAddr (m_regs (Clear s Addr Size))) (unat ((Addr + of_nat k) AND 0xfff))
           = Inr 0xff"
proof -
  have "k \<in> set [0..<unat Size]" using assms(1) by simp
  then have "tag_invalid (iCacheAddr (m_regs (Clear s Addr Size)))
               (unat ((Addr + of_nat k) AND 0xfff))"
    unfolding Clear_def
    using foldl_flush_sets [of "\<lambda>k. Addr + of_nat k" k "[0..<unat Size]" s] assms(2,3) by simp
  then show ?thesis
    using aligned_in_bounds [OF assms(3)] by (simp add: tag_invalid_load)
qed

text \<open>
  Claim C6. The tag \<^verbatim>\<open>0xff\<close> that line invalidation writes equals the tag of no
  word-aligned address. After \<^verbatim>\<open>Clear(Addr, Size)\<close>, for a word-aligned address of the
  range: when the address is cacheable its tag word holds \<^verbatim>\<open>0xff\<close>, so the fetch misses;
  and in every case the fetch returns the word of an instruction-typed read of that address
  issued by this very fetch, the last read of the log.
\<close>

theorem fetch_after_Clear_reads_memory:
  assumes "k < unat Size" and "a = Addr + of_nat k" and "a AND 3 = 0"
  shows "a AND 0xffffff \<noteq> 0xff
    \<and> (cacheable a \<longrightarrow>
          load32 (iCacheAddr (m_regs (Clear s Addr Size))) (unat (a AND 0xfff)) = Inr 0xff)
    \<and> (\<exists>ws s' mem'.
          read32s rd mem
            (if cacheable a
             then [a AND NOT 0xf, (a AND NOT 0xf) + 4, (a AND NOT 0xf) + 8, (a AND NOT 0xf) + 0xc, a]
             else [a]) = (ws, mem')
        \<and> readICache rd (Clear s Addr Size) mem a = Inr (last ws, s', mem')
        \<and> last (instrReads mem') = a)"
proof (cases "cacheable a")
  case True
  have ne: "a AND 0xffffff \<noteq> 0xff" using assms(3) by (rule sentinel_never_matches)
  have tag: "load32 (iCacheAddr (m_regs (Clear s Addr Size))) (unat (a AND 0xfff)) = Inr 0xff"
    using assms True Clear_invalidates [of k Size Addr s] by simp
  let ?as = "[a AND NOT 0xf, (a AND NOT 0xf) + 4, (a AND NOT 0xf) + 8, (a AND NOT 0xf) + 0xc, a]"
  obtain ws s' mem' where rs: "read32s rd mem ?as = (ws, mem')"
    and res: "readICache rd (Clear s Addr Size) mem a = Inr (ws ! 4, s', mem')"
    and log: "instrReads mem' = instrReads mem @ ?as"
    using miss_fill [OF True tag ne [symmetric], of rd mem] by blast
  have "length (fst (read32s rd mem ?as)) = length ?as" by (rule read32s_length)
  then have "length ws = 5" unfolding rs by simp
  then have "last ws = ws ! 4" by (cases ws rule: rev_cases) (simp_all add: nth_append)
  then show ?thesis using True ne tag rs res log by simp
next
  case False
  have ne: "a AND 0xffffff \<noteq> 0xff" using assms(3) by (rule sentinel_never_matches)
  show ?thesis
    using False ne
    by (simp add: readICache_uncached read32s_Cons instrReads_read32 del: read32s.simps(2))
qed

theorem fetch_after_Clear_reads_memory_witness:
  "\<exists>ws s' mem'.
      read32s ram_read mem0 [0x80000000, 0x80000004, 0x80000008, 0x8000000c, 0x80000004] = (ws, mem')
    \<and> readICache ram_read (Clear cpu0 0x80000000 16) mem0 0x80000004 = Inr (last ws, s', mem')
    \<and> last (instrReads mem') = 0x80000004"
proof -
  have h1: "(4 :: nat) < unat (16 :: u32)" by simp
  have h2: "(0x80000004 :: u32) = 0x80000000 + of_nat 4" by simp
  have h3: "(0x80000004 :: u32) AND 3 = 0" by simp
  from fetch_after_Clear_reads_memory [OF h1 h2 h3, of cpu0 ram_read mem0] cacheable_example
  show ?thesis by simp
qed

end
